theory Spec2Isabelle
  imports Main "HOL-Library.Sublist"
begin

section \<open>Python string primitives used by jerelog\_parser\<close>

text \<open>
  A Python \<open>str\<close> is modelled as a \<open>string\<close> (a list of 8-bit characters, read as
  the code points below 256). Indices that the source keeps non-negative are natural
  numbers; the result of \<open>str.find\<close> is an integer, because the source compares it with
  \<open>-1\<close> and also adds it to a cursor without looking at it first.
\<close>

datatype py_error = IndexError | SystemExit

definition py_whitespace :: string where
  "py_whitespace = [CHR 0x09, CHR 0x0A, CHR 0x0B, CHR 0x0C, CHR 0x0D,
                    CHR 0x1C, CHR 0x1D, CHR 0x1E, CHR 0x1F, CHR 0x20, CHR 0x85, CHR 0xA0]"

definition py_isspace :: "char \<Rightarrow> bool" where
  "py_isspace c = (c \<in> set py_whitespace)"

text \<open>\<open>s.strip()\<close>: leading and trailing whitespace removed.\<close>

definition strip :: "string \<Rightarrow> string" where
  "strip s = rev (dropWhile py_isspace (rev (dropWhile py_isspace s)))"

text \<open>\<open>s.startswith(p)\<close>.\<close>

definition startswith :: "string \<Rightarrow> string \<Rightarrow> bool" where
  "startswith s p = prefix p s"

text \<open>\<open>s.find(sub)\<close>: the lowest index at which \<open>sub\<close> occurs in \<open>s\<close>, or \<open>-1\<close>.\<close>

fun py_find :: "string \<Rightarrow> string \<Rightarrow> int" where
  "py_find [] sub = (if sub = [] then 0 else -1)"
| "py_find (c # cs) sub =
     (if prefix sub (c # cs) then 0
      else (let r = py_find cs sub in if r = -1 then -1 else r + 1))"

text \<open>\<open>s[a:b]\<close> and \<open>s[a:]\<close> for non-negative \<open>a\<close> and \<open>b\<close>.\<close>

definition py_slice :: "string \<Rightarrow> nat \<Rightarrow> nat \<Rightarrow> string" where
  "py_slice s a b = take (b - a) (drop a s)"

definition py_slice_from :: "string \<Rightarrow> nat \<Rightarrow> string" where
  "py_slice_from s a = drop a s"

text \<open>
  \<open>s.replace(old, new)\<close>: every non-overlapping occurrence of \<open>old\<close>, found from left
  to right, is replaced. For an empty \<open>old\<close> Python inserts \<open>new\<close> before every
  character and at the end.
\<close>

fun py_replace :: "string \<Rightarrow> string \<Rightarrow> string \<Rightarrow> string" where
  "py_replace [] old new = (if old = [] then new else [])"
| "py_replace (c # cs) old new =
     (if old = [] then new @ c # py_replace cs old new
      else if prefix old (c # cs)
        then new @ py_replace (drop (length old) (c # cs)) old new
      else c # py_replace cs old new)"

text \<open>\<open>s.split(sep)\<close> for a one-character separator: never an empty list.\<close>

fun py_split :: "string \<Rightarrow> char \<Rightarrow> string list" where
  "py_split [] sep = [[]]"
| "py_split (c # cs) sep =
     (if c = sep then [] # py_split cs sep
      else (case py_split cs sep of
              [] \<Rightarrow> [[c]]
            | w # ws \<Rightarrow> (c # w) # ws))"

section \<open>Facts about the string primitives\<close>

lemma py_find_ge: "- 1 \<le> py_find s sub"
  by (induction s) (auto simp: Let_def)

lemma py_find_prefix: "prefix sub s \<Longrightarrow> py_find s sub = 0"
  by (cases s) auto

lemma py_find_found:
  "py_find s sub \<noteq> - 1 \<Longrightarrow>
     0 \<le> py_find s sub \<and> nat (py_find s sub) \<le> length s
     \<and> prefix sub (drop (nat (py_find s sub)) s)"
proof (induction s)
  case Nil
  then show ?case by (auto split: if_splits)
next
  case (Cons c cs)
  show ?case
  proof (cases "prefix sub (c # cs)")
    case True
    then show ?thesis by simp
  next
    case False
    with Cons.prems have ne: "py_find cs sub \<noteq> - 1"
      by (auto simp: Let_def split: if_splits)
    from Cons.IH [OF ne] have ih: "0 \<le> py_find cs sub" "nat (py_find cs sub) \<le> length cs"
      "prefix sub (drop (nat (py_find cs sub)) cs)"
      by auto
    have eq: "py_find (c # cs) sub = py_find cs sub + 1"
      using False ne by (simp add: Let_def)
    have "nat (py_find cs sub + 1) = Suc (nat (py_find cs sub))"
      using ih(1) by simp
    then show ?thesis using ih eq by simp
  qed
qed

lemma py_find_bound:
  assumes "py_find s sub \<noteq> - 1"
  shows "nat (py_find s sub) + length sub \<le> length s"
proof -
  from py_find_found [OF assms]
  have p: "prefix sub (drop (nat (py_find s sub)) s)" and n: "nat (py_find s sub) \<le> length s"
    by simp_all
  from p have "length sub \<le> length (drop (nat (py_find s sub)) s)"
    by (rule prefix_length_le)
  with n show ?thesis by simp
qed

lemma py_find_occurs: "py_find (a @ sub @ b) sub \<noteq> - 1"
proof (induction a)
  case Nil
  have "prefix sub (sub @ b)" by simp
  then show ?case by (simp add: py_find_prefix)
next
  case (Cons c a)
  then show ?case using py_find_ge [of "a @ sub @ b" sub] by (auto simp: Let_def)
qed

lemma py_replace_length_le:
  "length new \<le> length old \<Longrightarrow> old \<noteq> [] \<Longrightarrow> length (py_replace s old new) \<le> length s"
proof (induction s old new rule: py_replace.induct)
  case (1 old new)
  then show ?case by simp
next
  case (2 c cs old new)
  show ?case
  proof (cases "prefix old (c # cs)")
    case True
    then have l: "length old \<le> length (c # cs)" by (rule prefix_length_le)
    from 2(2) [OF 2(5) True 2(4) 2(5)]
    have "length (py_replace (drop (length old) (c # cs)) old new) \<le> length (c # cs) - length old"
      by simp
    with l 2(4) have "length new + length (py_replace (drop (length old) (c # cs)) old new) \<le> length (c # cs)"
      by linarith
    then show ?thesis using True 2(5) by simp
  next
    case False
    with 2(3) [OF 2(5) False 2(4) 2(5)] 2(5) show ?thesis by simp
  qed
qed

lemma py_replace_length_less:
  "length new < length old \<Longrightarrow> py_find s old \<noteq> - 1 \<Longrightarrow>
     length (py_replace s old new) < length s"
proof (induction s old new rule: py_replace.induct)
  case (1 old new)
  then show ?case by (auto split: if_splits)
next
  case (2 c cs old new)
  have one: "old \<noteq> []" using 2(4) by auto
  show ?case
  proof (cases "prefix old (c # cs)")
    case True
    have "length (py_replace (drop (length old) (c # cs)) old new) \<le> length (drop (length old) (c # cs))"
    proof (rule py_replace_length_le)
      show "length new \<le> length old" using 2(4) by simp
      show "old \<noteq> []" by (rule one)
    qed
    moreover have "length old \<le> length (c # cs)" using True by (rule prefix_length_le)
    ultimately have "length new + length (py_replace (drop (length old) (c # cs)) old new) < length (c # cs)"
      using 2(4) by simp
    then show ?thesis using True one by simp
  next
    case False
    with 2(5) have "py_find cs old \<noteq> - 1" by (auto simp: Let_def split: if_splits)
    with 2(3) [OF one False 2(4)] show ?thesis using False one by simp
  qed
qed

section \<open>Lexical preprocessor: comment stripping\<close>

text \<open>
  \<open>get_uncommented(line, block_comment)\<close>. Outside a block comment the vendor marker
  \<open>//*\<close> is first rewritten to \<open>//\<close> until none is left; then the line is scanned with
  the cursor \<open>i\<close>, the flag \<open>block_comment\<close> and the kept text \<open>out_line\<close>.
\<close>

function unblock_markers :: "string \<Rightarrow> string" where
  "unblock_markers line =
     (if py_find line ''//*'' \<noteq> - 1
      then unblock_markers (py_replace line ''//*'' ''//'')
      else line)"
  by pat_completeness auto
termination
  by (relation "measure length") (auto intro: py_replace_length_less)

function get_uncommented_loop :: "string \<Rightarrow> nat \<Rightarrow> bool \<Rightarrow> string \<Rightarrow> string \<times> bool" where
  "get_uncommented_loop line i block_comment out_line =
     (if i < length line then
        (if block_comment then
           (if py_find (py_slice_from line i) ''*/'' \<noteq> - 1
            then get_uncommented_loop line
                   (nat (int i + py_find (py_slice_from line i) ''*/'' + int (length ''*/'')))
                   False (out_line @ '''')
            else get_uncommented_loop line (length line) block_comment (out_line @ ''''))
         else
           (if py_find (py_slice_from line i) ''/*'' \<noteq> - 1
            then get_uncommented_loop line
                   (nat (int i + py_find (py_slice_from line i) ''/*''))
                   True
                   (out_line @ py_slice line i (nat (int i + py_find (py_slice_from line i) ''/*'')))
            else if py_find (py_slice_from line i) ''//'' \<noteq> - 1
            then get_uncommented_loop line (length line) block_comment
                   (out_line @ py_slice line i (nat (py_find (py_slice_from line i) ''//'')))
            else get_uncommented_loop line (length line) block_comment
                   (out_line @ py_slice_from line i)))
      else (out_line, block_comment))"
  by pat_completeness auto
termination
proof (relation "measure (\<lambda>(line, i, bc, out). 2 * (length line - i) + (if bc then 0 else 1))",
    goal_cases)
  case 1
  show ?case by simp
next
  case (2 line i block_comment out_line)
  have "- 1 \<le> py_find (py_slice_from line i) ''*/''" by (rule py_find_ge)
  with 2 show ?case by simp
next
  case (3 line i block_comment out_line)
  then show ?case by simp
next
  case (4 line i block_comment out_line)
  have "- 1 \<le> py_find (py_slice_from line i) ''/*''" by (rule py_find_ge)
  with 4 show ?case by simp
next
  case (5 line i block_comment out_line)
  then show ?case by simp
next
  case (6 line i block_comment out_line)
  then show ?case by simp
qed

definition get_uncommented :: "string \<Rightarrow> bool \<Rightarrow> string \<times> bool" where
  "get_uncommented line block_comment =
     get_uncommented_loop (if \<not> block_comment then unblock_markers line else line)
       0 block_comment ''''"

section \<open>Lexical preprocessor: conditional compilation\<close>

text \<open>
  \<open>check_ifdefs(line, inside_ifdef, ifdef_stack)\<close> with the global
  \<open>verilog_define_variables\<close> passed in and returned. The stack is a Python list: push
  is \<open>append\<close>, pop removes the last element and raises \<open>IndexError\<close> on an empty list.
  The result is \<open>(filtered_line, inside_ifdef, ifdef_stack, verilog_define_variables)\<close>.
\<close>

datatype pyval = PyStr string | PyList "string list"

definition py_pop :: "string list \<Rightarrow> py_error + string list" where
  "py_pop st = (if st = [] then Inl IndexError else Inr (butlast st))"

definition temp_line_of :: "string \<Rightarrow> string" where
  "temp_line_of line = py_replace (strip line) [CHR 0x09] '' ''"

definition check_ifdefs ::
  "string \<Rightarrow> bool \<Rightarrow> string list \<Rightarrow> string list
     \<Rightarrow> py_error + (string \<times> bool \<times> string list \<times> string list)" where
  "check_ifdefs line inside_ifdef ifdef_stack verilog_define_variables =
    (let temp_line = temp_line_of line in
     if startswith temp_line ''`ifdef'' then
       (let st = ifdef_stack @ [last (py_split temp_line CHR '' '')] in
        Inr ('''', last st \<in> set verilog_define_variables, st, verilog_define_variables))
     else if startswith temp_line ''`protected'' then
       (let st = ifdef_stack @ [''protected''] in
        Inr ('''', last st \<in> set verilog_define_variables, st, verilog_define_variables))
     else if startswith temp_line ''`ifndef'' then
       (let st = ifdef_stack @ [last (py_split temp_line CHR '' '')] in
        Inr ('''', length st = 0 \<and> last st \<notin> set verilog_define_variables,
             st, verilog_define_variables))
     else if startswith temp_line ''`endif'' then
       (case py_pop ifdef_stack of
          Inl e \<Rightarrow> Inl e
        | Inr st \<Rightarrow>
            Inr ('''', length st > 0 \<and> last st \<in> set verilog_define_variables,
                 st, verilog_define_variables))
     else if startswith temp_line ''`endprotected'' then
       (case py_pop ifdef_stack of
          Inl e \<Rightarrow> Inl e
        | Inr st \<Rightarrow>
            Inr ('''', length st > 0 \<and> PyList st \<in> set (map PyStr verilog_define_variables),
                 st, verilog_define_variables))
     else if startswith temp_line ''`else'' then
       Inr ('''', length ifdef_stack > 0 \<and> last ifdef_stack \<notin> set verilog_define_variables,
            ifdef_stack, verilog_define_variables)
     else if startswith temp_line ''`define'' then
       (if inside_ifdef \<or> length ifdef_stack = 0 then
          (let tokens = py_split temp_line CHR '' '' in
           if length tokens \<ge> 2
           then Inr ('''', inside_ifdef, ifdef_stack, verilog_define_variables @ [tokens ! 1])
           else Inr ('''', inside_ifdef, ifdef_stack, verilog_define_variables))
        else Inr ('''', inside_ifdef, ifdef_stack, verilog_define_variables))
     else
       (if inside_ifdef \<or> length ifdef_stack = 0
        then Inr (line, inside_ifdef, ifdef_stack, verilog_define_variables)
        else Inr ('''', inside_ifdef, ifdef_stack, verilog_define_variables)))"

text \<open>A pop directive: the trimmed line starts with \<open>`endif\<close> or \<open>`endprotected\<close>.\<close>

definition is_pop_directive :: "string \<Rightarrow> bool" where
  "is_pop_directive line =
     (startswith (temp_line_of line) ''`endif'' \<or> startswith (temp_line_of line) ''`endprotected'')"

section \<open>Body normalizer\<close>

text \<open>
  \<open>get_one_line_code(module_code)\<close>. The inner \<open>while 1\<close> scan reads
  \<open>one_line_code[i]\<close> without a bound, so running off the end of the text is the
  \<open>IndexError\<close> of the source. The two outer loops of the source (for \<open>#(\<close> and for
  \<open>@(\<close>) have the same body; \<open>skip_blocks\<close> is that body with the opener as argument.
\<close>

function scan_parens :: "string \<Rightarrow> nat \<Rightarrow> int \<Rightarrow> py_error + nat" where
  "scan_parens code i parenth_lvl =
     (if i < length code then
        (let lvl1 = (if code ! i = CHR '')'' then parenth_lvl - 1 else parenth_lvl);
             lvl2 = (if code ! i = CHR ''('' then lvl1 + 1 else lvl1)
         in if lvl2 = 0 then Inr (i + 1) else scan_parens code (i + 1) lvl2)
      else Inl IndexError)"
  by pat_completeness auto
termination
  by (relation "measure (\<lambda>(code, i, lvl). length code - i)") auto

declare scan_parens.simps [simp del]

definition paren_delta :: "char \<Rightarrow> int" where
  "paren_delta c = (if c = CHR ''('' then 1 else if c = CHR '')'' then - 1 else 0)"

definition paren_depth :: "string \<Rightarrow> int" where
  "paren_depth s = sum_list (map paren_delta s)"

lemma scan_parens_end: "\<not> i < length code \<Longrightarrow> scan_parens code i lvl = Inl IndexError"
  by (subst scan_parens.simps) simp

lemma scan_parens_step:
  "i < length code \<Longrightarrow>
     scan_parens code i lvl =
       (if lvl + paren_delta (code ! i) = 0 then Inr (i + 1)
        else scan_parens code (i + 1) (lvl + paren_delta (code ! i)))"
  by (subst scan_parens.simps) (simp add: paren_delta_def Let_def)

lemma scan_parens_bounds:
  "scan_parens code i lvl = Inr j \<Longrightarrow> i < j \<and> j \<le> length code"
proof (induction "length code - i" arbitrary: i lvl)
  case 0
  then have "\<not> i < length code" by simp
  from scan_parens_end [OF this] "0.prems" show ?case by simp
next
  case (Suc n)
  then have lt: "i < length code" by simp
  show ?case
  proof (cases "lvl + paren_delta (code ! i) = 0")
    case True
    with Suc.prems lt have "j = i + 1" by (simp add: scan_parens_step)
    with lt show ?thesis by simp
  next
    case False
    with Suc.prems lt
    have r: "scan_parens code (i + 1) (lvl + paren_delta (code ! i)) = Inr j"
      by (simp add: scan_parens_step)
    have "n = length code - (i + 1)" using Suc.hyps(2) by simp
    from Suc.hyps(1) [OF this r] show ?thesis by simp
  qed
qed

lemma slice_occurs:
  assumes "p < i" "i \<le> length code"
  shows "py_slice code p i \<noteq> [] \<and> py_find code (py_slice code p i) \<noteq> - 1"
proof -
  have "take i code = take p code @ take (i - p) (drop p code)"
    using assms(1) by (metis le_add_diff_inverse less_imp_le_nat take_add)
  then have "code = take p code @ py_slice code p i @ drop i code"
    unfolding py_slice_def by (metis append_assoc append_take_drop_id)
  then have "py_find code (py_slice code p i) \<noteq> - 1"
    using py_find_occurs [of "take p code" "py_slice code p i" "drop i code"] by simp
  moreover have "py_slice code p i \<noteq> []"
    using assms by (simp add: py_slice_def)
  ultimately show ?thesis by simp
qed

function skip_blocks :: "string \<Rightarrow> string \<Rightarrow> py_error + string" where
  "skip_blocks opener one_line_code =
     (if py_find one_line_code opener \<noteq> - 1 then
        (case scan_parens one_line_code
                (nat (py_find one_line_code opener + int (length opener))) 1 of
           Inl e \<Rightarrow> Inl e
         | Inr i \<Rightarrow>
             skip_blocks opener
               (py_replace one_line_code
                  (py_slice one_line_code (nat (py_find one_line_code opener)) i) ''''))
      else Inr one_line_code)"
  by pat_completeness auto
termination
proof (relation "measure (\<lambda>(opener, code). length code)", goal_cases)
  case 1
  show ?case by simp
next
  case (2 opener code i)
  from scan_parens_bounds [OF 2(2)]
  have b: "nat (py_find code opener + int (length opener)) < i" "i \<le> length code" by auto
  have "nat (py_find code opener) \<le> nat (py_find code opener + int (length opener))"
    by simp
  with b(1) have "nat (py_find code opener) < i" by linarith
  from slice_occurs [OF this b(2)]
  have "length (py_replace code (py_slice code (nat (py_find code opener)) i) '''') < length code"
    by (intro py_replace_length_less) auto
  then show ?case by simp
qed

declare skip_blocks.simps [simp del]

function collapse_spaces :: "string \<Rightarrow> string" where
  "collapse_spaces one_line_code =
     (if py_find one_line_code ''  '' \<noteq> - 1
      then collapse_spaces (py_replace one_line_code ''  '' '' '')
      else one_line_code)"
  by pat_completeness auto
termination
  by (relation "measure length") (auto intro: py_replace_length_less)

definition get_one_line_code :: "string list \<Rightarrow> py_error + string" where
  "get_one_line_code module_code =
     (let c0 = concat module_code;
          c1 = py_replace c0 [CHR 0x0A] '' '';
          c2 = py_replace c1 [CHR 0x09] '' '';
          c3 = py_replace c2 '', '' '','';
          c4 = py_replace c3 ''# ('' ''#(''
      in case skip_blocks ''#('' c4 of
           Inl e \<Rightarrow> Inl e
         | Inr c5 \<Rightarrow>
             (case skip_blocks ''@('' c5 of
                Inl e \<Rightarrow> Inl e
              | Inr c6 \<Rightarrow> Inr (collapse_spaces c6)))"

section \<open>Facts about the body normalizer\<close>

text \<open>
  A text is balanced when its parentheses close exactly at its end and never before:
  every prefix has depth at least 0 and the whole has depth 0.
\<close>

definition balanced :: "string \<Rightarrow> bool" where
  "balanced mid =
     (paren_depth mid = 0 \<and> list_all (\<lambda>k. 0 \<le> paren_depth (take k mid)) [0..<Suc (length mid)])"

lemma paren_depth_Cons: "paren_depth (c # s) = paren_delta c + paren_depth s"
  by (simp add: paren_depth_def)

lemma scan_parens_finds_closer:
  "\<forall>k\<le>length mid. 1 \<le> lvl + paren_depth (take k mid) \<Longrightarrow>
   lvl + paren_depth mid = 1 \<Longrightarrow>
   scan_parens (pre @ mid @ CHR '')'' # rest) (length pre) lvl
     = Inr (length pre + length mid + 1)"
proof (induction mid arbitrary: pre lvl)
  case Nil
  then have "lvl = 1" by (simp add: paren_depth_def)
  then show ?case by (simp add: scan_parens_step paren_delta_def)
next
  case (Cons c mid)
  have lt: "length pre < length (pre @ (c # mid) @ CHR '')'' # rest)" by simp
  have at: "(pre @ (c # mid) @ CHR '')'' # rest) ! length pre = c" by simp
  from Cons.prems(1) have "1 \<le> lvl + paren_depth (take 1 (c # mid))" by force
  then have nz: "lvl + paren_delta c \<noteq> 0" by (simp add: paren_depth_def)
  have a: "\<forall>k\<le>length mid. 1 \<le> (lvl + paren_delta c) + paren_depth (take k mid)"
  proof (intro allI impI)
    fix k assume "k \<le> length mid"
    then have "Suc k \<le> length (c # mid)" by simp
    with Cons.prems(1) have "1 \<le> lvl + paren_depth (take (Suc k) (c # mid))" by blast
    then show "1 \<le> (lvl + paren_delta c) + paren_depth (take k mid)"
      by (simp add: paren_depth_Cons)
  qed
  have b: "(lvl + paren_delta c) + paren_depth mid = 1"
    using Cons.prems(2) by (simp add: paren_depth_Cons)
  from Cons.IH [OF a b, of "pre @ [c]"]
  have "scan_parens (pre @ (c # mid) @ CHR '')'' # rest) (length pre + 1) (lvl + paren_delta c)
          = Inr (length pre + length (c # mid) + 1)"
    by simp
  then show ?case
    using nz by (subst scan_parens_step [OF lt]) (simp only: at if_False)
qed

lemma py_replace_at_occurrence:
  assumes "old \<noteq> []"
  shows "py_replace (old @ rest) old new = new @ py_replace rest old new"
proof -
  from assms obtain c cs where e: "old @ rest = c # cs" by (cases old) auto
  have p: "prefix old (c # cs)" using e by (metis prefixI)
  have d: "drop (length old) (c # cs) = rest" using e by (metis append_eq_conv_conj)
  have "py_replace (c # cs) old new = new @ py_replace rest old new"
    using assms p d by simp
  then show ?thesis by (simp only: e)
qed

lemma py_replace_before_first:
  "py_find code sub = int p \<Longrightarrow> prefix sub old \<Longrightarrow> old \<noteq> [] \<Longrightarrow>
     py_replace code old new = take p code @ py_replace (drop p code) old new"
proof (induction code arbitrary: p)
  case Nil
  then show ?case by simp
next
  case (Cons c cs)
  show ?case
  proof (cases "prefix sub (c # cs)")
    case True
    with Cons.prems(1) have "p = 0" by simp
    then show ?thesis by simp
  next
    case False
    then have no: "\<not> prefix old (c # cs)"
      using Cons.prems(2) prefix_order.trans by blast
    from False Cons.prems(1) have f: "py_find cs sub \<noteq> - 1" "int p = py_find cs sub + 1"
      by (auto simp: Let_def split: if_splits)
    define q where "q = nat (py_find cs sub)"
    have q: "p = Suc q" "py_find cs sub = int q"
      using f py_find_ge [of cs sub] by (simp_all add: q_def)
    from Cons.IH [OF q(2) Cons.prems(2,3)] no Cons.prems(3) q(1)
    show ?thesis by simp
  qed
qed

lemma skip_blocks_result_has_no_opener:
  "skip_blocks opener code = Inr r \<Longrightarrow> py_find r opener = - 1"
proof (induction opener code rule: skip_blocks.induct)
  case (1 opener code)
  show ?case
  proof (cases "py_find code opener \<noteq> - 1")
    case False
    with "1.prems" show ?thesis by (subst (asm) skip_blocks.simps) simp
  next
    case True
    with "1.prems" obtain i where
      s: "scan_parens code (nat (py_find code opener + int (length opener))) 1 = Inr i"
      and k: "skip_blocks opener
                (py_replace code (py_slice code (nat (py_find code opener)) i) '''') = Inr r"
      by (subst (asm) skip_blocks.simps) (auto split: sum.splits)
    from "1.IH" [OF True s k] show ?thesis .
  qed
qed

lemma skip_blocks_iteration:
  assumes f: "py_find code ''#('' = int p"
    and d: "drop (p + 2) code = mid @ '')'' @ rest"
    and b: "balanced mid"
  shows "skip_blocks ''#('' code
           = skip_blocks ''#('' (take p code @ py_replace rest (''#('' @ mid @ '')'') '''')"
proof -
  from f have ne: "py_find code ''#('' \<noteq> - 1" by simp
  from py_find_found [OF ne] f have pre: "prefix ''#('' (drop p code)" by simp
  then obtain tl where tl: "drop p code = ''#('' @ tl" by (auto simp: prefix_def)
  then have "drop 2 (drop p code) = tl" by simp
  then have "tl = mid @ '')'' @ rest" using d by (simp add: add.commute)
  with tl have dp: "drop p code = ''#('' @ mid @ '')'' @ rest" by simp
  have ple: "p \<le> length code" using py_find_found [OF ne] f by simp
  have code: "code = (take p code @ ''#('') @ mid @ CHR '')'' # rest"
    using dp by (metis append_assoc append_take_drop_id append_Cons append_Nil)
  have lp: "length (take p code @ ''#('') = p + 2" using ple by simp
  have k: "\<forall>k\<le>length mid. 1 \<le> 1 + paren_depth (take k mid)"
    using b by (auto simp: balanced_def list_all_iff)
  have t: "1 + paren_depth mid = 1" using b by (simp add: balanced_def)
  from scan_parens_finds_closer [OF k t, of "take p code @ ''#(''" rest] code lp
  have scan: "scan_parens code (p + 2) 1 = Inr (p + 2 + length mid + 1)"
    by simp
  define span where "span = ''#('' @ mid @ '')''"
  have ls: "length span = 2 + length mid + 1" by (simp add: span_def)
  have e1: "drop p code = span @ rest" using dp by (simp add: span_def)
  have "p + 2 + length mid + 1 - p = length span" unfolding ls by linarith
  then have "py_slice code p (p + 2 + length mid + 1) = take (length span) (drop p code)"
    by (simp only: py_slice_def)
  also have "\<dots> = span" unfolding e1 by simp
  finally have span: "py_slice code p (p + 2 + length mid + 1) = ''#('' @ mid @ '')''"
    by (simp add: span_def)
  have "py_replace code (''#('' @ mid @ '')'') ''''
          = take p code @ py_replace (drop p code) (''#('' @ mid @ '')'') ''''"
    by (rule py_replace_before_first [OF f]) simp_all
  also have "py_replace (drop p code) (''#('' @ mid @ '')'') ''''
          = py_replace rest (''#('' @ mid @ '')'') ''''"
    using py_replace_at_occurrence [of "''#('' @ mid @ '')''" rest "''''"] dp by simp
  finally have rep: "py_replace code (''#('' @ mid @ '')'') ''''
          = take p code @ py_replace rest (''#('' @ mid @ '')'') ''''" .
  have n: "nat (int p + int (length ''#('')) = p + 2"
    by simp
  have "skip_blocks ''#('' code =
          (case scan_parens code (nat (py_find code ''#('' + int (length ''#(''))) 1 of
             Inl e \<Rightarrow> Inl e
           | Inr i \<Rightarrow>
               skip_blocks ''#(''
                 (py_replace code (py_slice code (nat (py_find code ''#('')) i) ''''))"
    by (subst skip_blocks.simps) (simp only: ne not_False_eq_True if_True)
  also have "\<dots> = skip_blocks ''#(''
                       (py_replace code (py_slice code p (p + 2 + length mid + 1)) '''')"
    by (simp only: f n scan sum.case nat_int)
  also have "\<dots> = skip_blocks ''#(''
                       (take p code @ py_replace rest (''#('' @ mid @ '')'') '''')"
    by (simp only: span rep)
  finally show ?thesis .
qed

section \<open>Port and instance extraction\<close>

text \<open>
  \<open>parse_ports\<close> matches a regular expression with Python's \<open>re\<close> module, which is
  not part of the repository: the list of the match groups
  \<open>(port_type, bit_width, port_group)\<close> that \<open>finditer\<close> yields on a text is the
  parameter \<open>re_port_matches\<close>; an absent \<open>bit_width\<close> group is \<open>None\<close>.
\<close>

type_synonym port = "string \<times> string \<times> string"
type_synonym port_match = "string \<times> string option \<times> string"

definition bit_width_formatted :: "string option \<Rightarrow> string" where
  "bit_width_formatted bit_width =
     (case bit_width of None \<Rightarrow> '''' | Some w \<Rightarrow> (if w \<noteq> '''' then strip w else ''''))"

definition parse_ports :: "(string \<Rightarrow> port_match list) \<Rightarrow> string \<Rightarrow> port list" where
  "parse_ports re_port_matches verilog_text =
     concat (map (\<lambda>(port_type, bit_width, port_group).
                    map (\<lambda>port_name. (port_type, port_name, bit_width_formatted bit_width))
                        (map strip (py_split port_group CHR '','')))
                 (re_port_matches verilog_text))"

definition invalid_module_names :: "string list" where
  "invalid_module_names =
     [''if'', ''else'', ''begin'', ''end'', ''case'', ''endcase'', ''generate'', ''endgenerate'',
      ''initial'', ''wire'', ''logic'', ''parameter'', ''localparam'', ''assign'', ''always'',
      ''always_ff'', ''for'', ''$display'', ''$finish'', ''@'']"

definition get_module_type_name :: "string \<Rightarrow> string \<times> string" where
  "get_module_type_name type_name_string =
     (let s = strip type_name_string;
          type_string = py_slice s 0 (nat (py_find s '' '' + int (length '' '')));
          name_string = py_slice_from s (nat (py_find s '' '' + int (length '' '')))
      in (strip type_string, strip name_string))"

text \<open>
  The \<open>for\<close> loop over \<open>invalid_module_names\<close> (one pass, the candidate span re-read
  with the moved \<open>submod_start\<close> at every keyword) and the \<open>while(1)\<close> loop around it,
  which repeats the pass until no keyword was found.
\<close>

fun keyword_pass :: "string \<Rightarrow> nat \<Rightarrow> string list \<Rightarrow> nat \<Rightarrow> bool \<Rightarrow> nat \<times> bool" where
  "keyword_pass code submod_end [] submod_start found_one = (submod_start, found_one)"
| "keyword_pass code submod_end (inval_mod_name # rest) submod_start found_one =
     (if startswith (strip (py_slice code submod_start submod_end)) (inval_mod_name @ '' '')
      then keyword_pass code submod_end rest
             (nat (int submod_start
                   + py_find (py_slice code submod_start submod_end) (inval_mod_name @ '' '')
                   + int (length (inval_mod_name @ '' ''))))
             True
      else keyword_pass code submod_end rest submod_start found_one)"

lemma strip_is_infix: "\<exists>a b. s = a @ strip s @ b"
proof -
  define t where "t = dropWhile py_isspace s"
  have 1: "s = takeWhile py_isspace s @ t" by (simp add: t_def)
  have "rev (takeWhile py_isspace (rev t) @ dropWhile py_isspace (rev t))
          = rev (dropWhile py_isspace (rev t)) @ rev (takeWhile py_isspace (rev t))"
    by (rule rev_append)
  moreover have "rev (takeWhile py_isspace (rev t) @ dropWhile py_isspace (rev t)) = t"
    by (simp only: takeWhile_dropWhile_id rev_rev_ident)
  ultimately have 2: "t = strip s @ rev (takeWhile py_isspace (rev t))"
    by (simp only: strip_def t_def)
  from 1 2 have "s = takeWhile py_isspace s @ strip s @ rev (takeWhile py_isspace (rev t))"
    by simp
  then show ?thesis by blast
qed

lemma startswith_strip_found:
  assumes "startswith (strip s) p"
  shows "py_find s p \<noteq> - 1"
proof -
  from assms obtain r where r: "strip s = p @ r" by (auto simp: startswith_def prefix_def)
  from strip_is_infix [of s] obtain a b where "s = a @ strip s @ b" by blast
  with r have "s = a @ p @ (r @ b)" by simp
  then show ?thesis using py_find_occurs [of a p "r @ b"] by simp
qed

lemma keyword_pass_moves:
  "keyword_pass code e kws s f = (s', f') \<Longrightarrow>
     s \<le> s' \<and> (f' \<longrightarrow> f \<or> (s < s' \<and> s < e))"
proof (induction kws arbitrary: s f)
  case Nil
  then show ?case by simp
next
  case (Cons kw kws)
  show ?case
  proof (cases "startswith (strip (py_slice code s e)) (kw @ '' '')")
    case False
    with Cons.prems have "keyword_pass code e kws s f = (s', f')" by simp
    from Cons.IH [OF this] show ?thesis .
  next
    case True
    define m where "m = nat (int s + py_find (py_slice code s e) (kw @ '' '')
                              + int (length (kw @ '' '')))"
    from startswith_strip_found [OF True]
    have ne: "py_find (py_slice code s e) (kw @ '' '') \<noteq> - 1" .
    with py_find_found have "0 \<le> py_find (py_slice code s e) (kw @ '' '')" by blast
    then have sm: "s < m" by (simp add: m_def)
    from ne have "py_slice code s e \<noteq> []" by (auto split: if_splits)
    then have se: "s < e" by (auto simp: py_slice_def)
    from True Cons.prems have "keyword_pass code e kws m True = (s', f')"
      by (simp add: m_def)
    from Cons.IH [OF this] have "m \<le> s'" by simp
    with sm se show ?thesis by simp
  qed
qed

function skip_keywords :: "string \<Rightarrow> nat \<Rightarrow> nat \<Rightarrow> nat" where
  "skip_keywords code submod_start submod_end =
     (case keyword_pass code submod_end invalid_module_names submod_start False of
        (submod_start', found_one) \<Rightarrow>
          if \<not> found_one then submod_start'
          else skip_keywords code submod_start' submod_end)"
  by pat_completeness auto
termination
proof (relation "measure (\<lambda>(code, s, e). e - s)", goal_cases)
  case 1
  show ?case by simp
next
  case (2 code s e s' f')
  then have "keyword_pass code e invalid_module_names s False = (s', f')" by simp
  from keyword_pass_moves [OF this] 2 show ?case by auto
qed

declare skip_keywords.simps [simp del]

definition accept_instance :: "string \<Rightarrow> string \<Rightarrow> bool" where
  "accept_instance inst_type inst_name =
     (let inst_type_name_cat = inst_type @ inst_name in
      inst_type \<noteq> '''' \<and> inst_name \<noteq> '''' \<and>
      inst_type \<notin> set invalid_module_names \<and> inst_name \<notin> set invalid_module_names \<and>
      py_find inst_type_name_cat ''='' = - 1 \<and>
      py_find inst_type_name_cat '':'' = - 1 \<and>
      py_find inst_type_name_cat ''.'' = - 1 \<and>
      py_find inst_type_name_cat ''['' = - 1 \<and>
      py_find inst_type_name_cat '']'' = - 1 \<and>
      py_find inst_type_name_cat ''$'' = - 1 \<and>
      py_find inst_type_name_cat ''<'' = - 1 \<and>
      py_find inst_type_name_cat ''>'' = - 1 \<and>
      py_find inst_type_name_cat '' '' = - 1)"

text \<open>
  One turn of the \<open>while i < len(one_line_module_code)\<close> loop of
  \<open>save_module_attributes\<close>: the new cursor and the new \<open>submod_list\<close>. The cursor moves
  by \<open>find(";") + 1\<close> in three branches without a test, so it stays where it is when no
  \<open>;\<close> follows.
\<close>

definition instance_step ::
  "string \<Rightarrow> string \<Rightarrow> nat \<Rightarrow> (string \<times> string) list \<Rightarrow> nat \<times> (string \<times> string) list" where
  "instance_step module code i submod_list =
     (let rest = py_slice_from code i in
      if py_find rest (''module '' @ module) \<noteq> - 1 then
        (if py_find rest '';'' \<noteq> - 1
         then (nat (int i + py_find rest '';'' + int (length '';'')), submod_list)
         else (length code, submod_list))
      else if py_find rest ''wire '' = 0 then
        (nat (int i + py_find rest '';'' + int (length '';'')), submod_list)
      else if py_find rest ''assign '' = 0 then
        (nat (int i + py_find rest '';'' + int (length '';'')), submod_list)
      else if py_find rest ''('' \<noteq> - 1 then
        (let submod_end = nat (int i + py_find rest ''('');
             submod_start = skip_keywords code i submod_end;
             cand = py_slice code submod_start submod_end;
             submod_list' =
               (if py_find cand '';'' = - 1 then
                  (case get_module_type_name cand of
                     (inst_type, inst_name) \<Rightarrow>
                       if accept_instance inst_type inst_name
                       then submod_list @ [(inst_type, inst_name)]
                       else submod_list)
                else submod_list)
         in (nat (int i + py_find rest '';'' + int (length '';'')), submod_list'))
      else
        (if py_find rest '';'' \<noteq> - 1
         then (nat (int i + py_find rest '';'' + int (length '';'')), submod_list)
         else (length code, submod_list)))"

partial_function (option) instance_loop ::
  "string \<Rightarrow> string \<Rightarrow> nat \<Rightarrow> (string \<times> string) list \<Rightarrow> (string \<times> string) list option" where
  "instance_loop module code i submod_list =
     (if i < length code then
        (case instance_step module code i submod_list of
           (i', submod_list') \<Rightarrow> instance_loop module code i' submod_list')
      else Some submod_list)"

declare instance_loop.simps [code]

definition port_lists :: "port list \<Rightarrow> port list \<times> port list" where
  "port_lists ports =
     foldl (\<lambda>(input_list, output_list) (port_type, port_name, port_width).
              (let input_list1 = (if port_type = ''input''
                                  then input_list @ [(port_type, port_name, port_width)]
                                  else input_list);
                   output_list1 = (if port_type = ''output''
                                   then output_list @ [(port_type, port_name, port_width)]
                                   else output_list)
               in if port_type = ''inout''
                  then (input_list1 @ [(port_type, port_name, port_width)],
                        output_list1 @ [(port_type, port_name, port_width)])
                  else (input_list1, output_list1)))
           ([], []) ports"

text \<open>
  \<open>save_module_attributes(module, one_line_module_code)\<close>; \<open>None\<close> when the instance
  loop never ends.
\<close>

definition save_module_attributes ::
  "(string \<Rightarrow> port_match list) \<Rightarrow> string \<Rightarrow> string
     \<Rightarrow> (port list \<times> port list \<times> (string \<times> string) list) option" where
  "save_module_attributes re_port_matches module one_line_module_code =
     (case port_lists (parse_ports re_port_matches one_line_module_code) of
        (input_list, output_list) \<Rightarrow>
          (case instance_loop module one_line_module_code 0 [] of
             None \<Rightarrow> None
           | Some submod_list \<Rightarrow> Some (input_list, output_list, submod_list)))"

section \<open>Facts about the instance extractor\<close>








section \<open>Module registry and file ingestion\<close>

text \<open>
  The class \<open>VerilogModule\<close> and the module-level lists of the source. The lists
  that \<open>parse_verilog\<close> reads and writes are gathered in the record \<open>globals\<close>, the
  local variables of its loop in the record \<open>parse_locals\<close>. The variable \<open>module\<close> is
  unbound in the source until the first module line; it is read only after
  \<open>active_module\<close> was set, so its initial value here is never looked at.
\<close>

record VerilogModule =
  name :: string
  inputs :: "port list"
  outputs :: "port list"
  submodules :: "(string \<times> string) list"
  filepath :: string
  linenum :: nat
  startcol :: int

record globals =
  verilog_modules :: "VerilogModule list"
  module_list :: "string list"
  multi_defined_list :: "(string \<times> string \<times> nat \<times> int) list"
  verilog_define_variables :: "string list"

record parse_locals =
  active_module :: bool
  block_comment :: bool
  inside_ifdef :: bool
  ifdef_stack :: "string list"
  line_number :: nat
  module_code :: "string list"
  module :: string
  start_line :: nat
  start_column :: int

text \<open>\<open>s[:k]\<close> for any integer \<open>k\<close>: a negative \<open>k\<close> counts from the end.\<close>

definition py_slice_to :: "string \<Rightarrow> int \<Rightarrow> string" where
  "py_slice_to s k = (if k < 0 then take (nat (int (length s) + k)) s else take (nat k) s)"

text \<open>
  \<open>get_module_name(line)\<close>: the \<open>while(1)\<close> loop that moves \<open>end_idx\<close> is
  \<open>name_end_idx\<close>; it starts at 0.
\<close>

partial_function (option) name_end_idx :: "string \<Rightarrow> nat \<Rightarrow> nat option" where
  "name_end_idx line end_idx =
     (if py_find (py_slice line 0 end_idx) '' '' \<noteq> - 1 then Some end_idx
      else if py_find (py_slice line 0 end_idx) [CHR 0x09] \<noteq> - 1 then Some end_idx
      else if py_find (py_slice line 0 end_idx) ''('' \<noteq> - 1 then Some end_idx
      else if py_find (py_slice line 0 end_idx) '';'' \<noteq> - 1 then Some end_idx
      else if py_find (py_slice line 0 end_idx) [CHR 0x0A] \<noteq> - 1 then Some end_idx
      else if end_idx = length line then Some (length line + 1)
      else name_end_idx line (end_idx + 1))"

declare name_end_idx.simps [code]

definition get_module_name :: "string \<Rightarrow> string option" where
  "get_module_name line =
     (let start_idx = nat (py_find line ''module '' + int (length ''module ''));
          stripped = strip (py_slice_from line start_idx)
      in case name_end_idx stripped 0 of
           None \<Rightarrow> None
         | Some end_idx \<Rightarrow> Some (py_slice_to stripped (int end_idx - 1)))"

text \<open>
  The \<open>endmodule\<close> case of \<open>parse_verilog\<close> once \<open>active_module\<close> was found set:
  the buffer is normalized, then the module is registered under its name if the name is
  new, and recorded in \<open>multi_defined_list\<close> otherwise. The result is \<open>None\<close> when
  \<open>save_module_attributes\<close> does not return.
\<close>

definition finish_module ::
  "(string \<Rightarrow> port_match list) \<Rightarrow> string \<Rightarrow> globals \<Rightarrow> parse_locals \<Rightarrow> string
     \<Rightarrow> (py_error + globals \<times> parse_locals) option" where
  "finish_module re_port_matches filename gl st uncommented_line =
     (case get_one_line_code (module_code st @ [uncommented_line]) of
        Inl e \<Rightarrow> Some (Inl e)
      | Inr one_line_module_code \<Rightarrow>
          (if module st \<notin> set (module_list gl) then
             (case save_module_attributes re_port_matches (module st) one_line_module_code of
                None \<Rightarrow> None
              | Some (input_list, output_list, submod_list) \<Rightarrow>
                  Some (Inr
                    (gl\<lparr>module_list := module_list gl @ [module st],
                        verilog_modules := verilog_modules gl @
                          [\<lparr>name = module st, inputs = input_list, outputs = output_list,
                            submodules = submod_list, filepath = filename,
                            linenum = start_line st, startcol = start_column st\<rparr>]\<rparr>,
                     st\<lparr>active_module := False, module_code := []\<rparr>)))
           else
             Some (Inr
               (gl\<lparr>multi_defined_list := multi_defined_list gl @
                      [(module st, filename, start_line st, start_column st)]\<rparr>,
                st\<lparr>active_module := False, module_code := []\<rparr>))))"

text \<open>The body of the \<open>for line in file\<close> loop after the two filters.\<close>

definition track_line ::
  "(string \<Rightarrow> port_match list) \<Rightarrow> string \<Rightarrow> globals \<Rightarrow> parse_locals \<Rightarrow> string
     \<Rightarrow> (py_error + globals \<times> parse_locals) option" where
  "track_line re_port_matches filename gl st uncommented_line =
     (if uncommented_line \<noteq> '''' \<or> uncommented_line \<noteq> [CHR 0x0A] then
        (if py_find uncommented_line ''endmodule'' \<noteq> - 1 then
           (if active_module st = False then Some (Inl SystemExit)
            else finish_module re_port_matches filename gl st uncommented_line)
         else if startswith (strip uncommented_line) ''module ''
                 \<or> startswith (strip uncommented_line) (''module'' @ [CHR 0x09])
                 \<or> py_find uncommented_line '' module '' \<noteq> - 1 then
           (case get_module_name uncommented_line of
              None \<Rightarrow> None
            | Some m \<Rightarrow>
                Some (Inr
                  (gl,
                   st\<lparr>module := m,
                      start_line := line_number st,
                      start_column := py_find uncommented_line m + int (length m) + 1,
                      active_module := True,
                      module_code := module_code st @ [uncommented_line]\<rparr>)))
         else if active_module st then
           Some (Inr (gl, st\<lparr>module_code := module_code st @ [uncommented_line]\<rparr>))
         else Some (Inr (gl, st)))
      else Some (Inr (gl, st)))"

text \<open>One line of the file: the line counter, the two filters, then the tracker.\<close>

definition parse_line ::
  "(string \<Rightarrow> port_match list) \<Rightarrow> string \<Rightarrow> globals \<times> parse_locals \<Rightarrow> string
     \<Rightarrow> (py_error + globals \<times> parse_locals) option" where
  "parse_line re_port_matches filename gs line =
     (case gs of (gl, st) \<Rightarrow>
        (case get_uncommented line (block_comment st) of
           (uncommented_line, bc) \<Rightarrow>
             (case check_ifdefs uncommented_line (inside_ifdef st) (ifdef_stack st)
                     (verilog_define_variables gl) of
                Inl e \<Rightarrow> Some (Inl e)
              | Inr (filtered_line, ins, stack, defs) \<Rightarrow>
                  track_line re_port_matches filename
                    (gl\<lparr>verilog_define_variables := defs\<rparr>)
                    (st\<lparr>line_number := line_number st + 1, block_comment := bc,
                       inside_ifdef := ins, ifdef_stack := stack\<rparr>)
                    filtered_line)))"

fun parse_lines ::
  "(string \<Rightarrow> port_match list) \<Rightarrow> string \<Rightarrow> string list \<Rightarrow> globals \<times> parse_locals
     \<Rightarrow> (py_error + globals \<times> parse_locals) option" where
  "parse_lines re_port_matches filename [] gs = Some (Inr gs)"
| "parse_lines re_port_matches filename (line # rest) gs =
     (case parse_line re_port_matches filename gs line of
        None \<Rightarrow> None
      | Some (Inl e) \<Rightarrow> Some (Inl e)
      | Some (Inr gs') \<Rightarrow> parse_lines re_port_matches filename rest gs')"

definition initial_locals :: parse_locals where
  "initial_locals =
     \<lparr>active_module = False, block_comment = False, inside_ifdef = False, ifdef_stack = [],
      line_number = 0, module_code = [], module = '''', start_line = 0, start_column = 0\<rparr>"

text \<open>
  \<open>parse_verilog(filename)\<close>, with the file system as an argument: \<open>file_lines\<close> is
  \<open>None\<close> when \<open>filename\<close> is not a file, and the lines of the file (each with its
  line end) otherwise. The two \<open>exit()\<close> calls are the error \<open>SystemExit\<close>.
\<close>

definition parse_verilog ::
  "(string \<Rightarrow> port_match list) \<Rightarrow> string \<Rightarrow> string list option \<Rightarrow> globals
     \<Rightarrow> (py_error + globals) option" where
  "parse_verilog re_port_matches filename file_lines gl =
     (case file_lines of
        None \<Rightarrow> Some (Inr gl)
      | Some lines \<Rightarrow>
          (case parse_lines re_port_matches filename lines (gl, initial_locals) of
             None \<Rightarrow> None
           | Some (Inl e) \<Rightarrow> Some (Inl e)
           | Some (Inr (gl', st')) \<Rightarrow>
               if active_module st' then Some (Inl SystemExit) else Some (Inr gl')))"

definition empty_globals :: globals where
  "empty_globals =
     \<lparr>verilog_modules = [], module_list = [], multi_defined_list = [],
      verilog_define_variables = []\<rparr>"




definition no_ports :: "string \<Rightarrow> port_match list" where
  "no_ports verilog_text = []"

definition top_mod :: VerilogModule where
  "top_mod = \<lparr>name = ''top'', inputs = [], outputs = [], submodules = [(''leaf'', ''u0'')],
                  filepath = ''top.v'', linenum = 1, startcol = 11\<rparr>"

definition leaf_mod :: VerilogModule where
  "leaf_mod = \<lparr>name = ''leaf'', inputs = [], outputs = [], submodules = [],
                   filepath = ''leaf.v'', linenum = 1, startcol = 12\<rparr>"


section \<open>Facts about file ingestion\<close>

text \<open>The conflict record that a later definition of a kept Module gives rise to.\<close>

definition conflict_of :: "VerilogModule \<Rightarrow> string \<times> string \<times> nat \<times> int" where
  "conflict_of m = (name m, filepath m, linenum m, startcol m)"

lemma finish_module_registered:
  assumes "module st \<in> set (module_list gl)"
    and "get_one_line_code (module_code st @ [l]) = Inr c"
  shows "finish_module re f gl st l =
           Some (Inr (gl\<lparr>multi_defined_list := multi_defined_list gl @
                           [(module st, f, start_line st, start_column st)]\<rparr>,
                      st\<lparr>active_module := False, module_code := []\<rparr>))"
  using assms by (simp add: finish_module_def)

lemma finish_module_mono:
  assumes "finish_module re f gl st l = Some (Inr (gl', st'))"
  shows "verilog_define_variables gl' = verilog_define_variables gl
         \<and> prefix (multi_defined_list gl) (multi_defined_list gl')
         \<and> prefix (verilog_modules gl) (verilog_modules gl')
         \<and> set (module_list gl) \<subseteq> set (module_list gl')"
  using assms
  by (auto simp: finish_module_def split: sum.splits if_splits option.splits prod.splits)

lemma track_line_mono:
  assumes "track_line re f gl st l = Some (Inr (gl', st'))"
  shows "verilog_define_variables gl' = verilog_define_variables gl
         \<and> prefix (multi_defined_list gl) (multi_defined_list gl')
         \<and> prefix (verilog_modules gl) (verilog_modules gl')
         \<and> set (module_list gl) \<subseteq> set (module_list gl')"
proof (cases "py_find l ''endmodule'' \<noteq> - 1")
  case True
  with assms have "finish_module re f gl st l = Some (Inr (gl', st'))"
    by (auto simp: track_line_def split: if_splits)
  then show ?thesis by (rule finish_module_mono)
next
  case False
  with assms have "gl' = gl"
    by (auto simp: track_line_def split: if_splits option.splits)
  then show ?thesis by simp
qed

lemma check_ifdefs_defs_mono:
  "check_ifdefs l i s d = Inr (fl, i', s', d') \<Longrightarrow> prefix d d'"
  by (auto simp: check_ifdefs_def Let_def py_pop_def split: if_splits sum.splits)

lemma parse_line_mono:
  assumes "parse_line re f (gl, st) l = Some (Inr (gl', st'))"
  shows "prefix (verilog_define_variables gl) (verilog_define_variables gl')
         \<and> prefix (multi_defined_list gl) (multi_defined_list gl')
         \<and> prefix (verilog_modules gl) (verilog_modules gl')
         \<and> set (module_list gl) \<subseteq> set (module_list gl')"
proof -
  obtain u bc where u: "get_uncommented l (block_comment st) = (u, bc)"
    by (cases "get_uncommented l (block_comment st)") auto
  from assms u obtain fl i' s' d' where
    c: "check_ifdefs u (inside_ifdef st) (ifdef_stack st) (verilog_define_variables gl)
          = Inr (fl, i', s', d')"
    by (auto simp: parse_line_def split: sum.splits)
  from assms u c have
    t: "track_line re f (gl\<lparr>verilog_define_variables := d'\<rparr>)
          (st\<lparr>line_number := line_number st + 1, block_comment := bc,
              inside_ifdef := i', ifdef_stack := s'\<rparr>) fl = Some (Inr (gl', st'))"
    by (simp add: parse_line_def)
  from track_line_mono [OF t] check_ifdefs_defs_mono [OF c] show ?thesis by simp
qed

lemma parse_lines_mono:
  "parse_lines re f ls (gl, st) = Some (Inr (gl', st')) \<Longrightarrow>
     prefix (verilog_define_variables gl) (verilog_define_variables gl')
     \<and> prefix (multi_defined_list gl) (multi_defined_list gl')
     \<and> prefix (verilog_modules gl) (verilog_modules gl')
     \<and> set (module_list gl) \<subseteq> set (module_list gl')"
proof (induction ls arbitrary: gl st)
  case Nil
  then show ?case by simp
next
  case (Cons l ls)
  from Cons.prems obtain gla sta where
    a: "parse_line re f (gl, st) l = Some (Inr (gla, sta))"
    and b: "parse_lines re f ls (gla, sta) = Some (Inr (gl', st'))"
    by (auto split: option.splits sum.splits)
  from parse_line_mono [OF a] Cons.IH [OF b] show ?case
    by (meson prefix_order.trans subset_trans)
qed

lemma finish_module_sim:
  assumes r: "finish_module re f gl st l = Some (Inr (gl', st'))"
    and m: "multi_defined_list gl' = multi_defined_list gl"
    and s: "set (module_list gl') \<subseteq> set (module_list g2)"
  shows "finish_module re f g2 st l =
           Some (Inr (g2\<lparr>multi_defined_list := multi_defined_list g2 @
                           map conflict_of
                             (drop (length (verilog_modules gl)) (verilog_modules gl'))\<rparr>,
                      st'))"
proof -
  from r obtain c where c: "get_one_line_code (module_code st @ [l]) = Inr c"
    by (auto simp: finish_module_def split: sum.splits)
  show ?thesis
  proof (cases "module st \<in> set (module_list gl)")
    case True
    from finish_module_registered [OF True c, of re f] r
    have "gl' = gl\<lparr>multi_defined_list := multi_defined_list gl @
                       [(module st, f, start_line st, start_column st)]\<rparr>"
      by simp
    with m show ?thesis by simp
  next
    case False
    with r c obtain il ol sl where
      a: "save_module_attributes re (module st) c = Some (il, ol, sl)"
      and g: "gl' = gl\<lparr>module_list := module_list gl @ [module st],
                       verilog_modules := verilog_modules gl @
                         [\<lparr>name = module st, inputs = il, outputs = ol, submodules = sl,
                           filepath = f, linenum = start_line st,
                           startcol = start_column st\<rparr>]\<rparr>"
      and t: "st' = st\<lparr>active_module := False, module_code := []\<rparr>"
      by (auto simp: finish_module_def split: option.splits)
    from g s have "module st \<in> set (module_list g2)" by auto
    from finish_module_registered [OF this c, of re f] g t show ?thesis
      by (simp add: conflict_of_def)
  qed
qed

lemma track_line_sim:
  assumes r: "track_line re f gl st l = Some (Inr (gl', st'))"
    and m: "multi_defined_list gl' = multi_defined_list gl"
    and s: "set (module_list gl') \<subseteq> set (module_list g2)"
  shows "track_line re f g2 st l =
           Some (Inr (g2\<lparr>multi_defined_list := multi_defined_list g2 @
                           map conflict_of
                             (drop (length (verilog_modules gl)) (verilog_modules gl'))\<rparr>,
                      st'))"
proof (cases "py_find l ''endmodule'' \<noteq> - 1")
  case True
  with r have a: "active_module st" and fm: "finish_module re f gl st l = Some (Inr (gl', st'))"
    by (auto simp: track_line_def split: if_splits)
  from finish_module_sim [OF fm m s] True a show ?thesis
    by (simp add: track_line_def)
next
  case False
  with r have g: "gl' = gl"
    by (auto simp: track_line_def split: if_splits option.splits)
  from False r g have "track_line re f g2 st l = Some (Inr (g2, st'))"
    by (auto simp: track_line_def split: if_splits option.splits)
  with g show ?thesis by simp
qed

lemma parse_line_sim:
  assumes r: "parse_line re f (gl, st) l = Some (Inr (gl', st'))"
    and d: "verilog_define_variables gl' = verilog_define_variables gl"
    and m: "multi_defined_list gl' = multi_defined_list gl"
    and d2: "verilog_define_variables g2 = verilog_define_variables gl"
    and s: "set (module_list gl') \<subseteq> set (module_list g2)"
  shows "parse_line re f (g2, st) l =
           Some (Inr (g2\<lparr>multi_defined_list := multi_defined_list g2 @
                           map conflict_of
                             (drop (length (verilog_modules gl)) (verilog_modules gl'))\<rparr>,
                      st'))"
proof -
  obtain u bc where u: "get_uncommented l (block_comment st) = (u, bc)"
    by (cases "get_uncommented l (block_comment st)") auto
  from r u obtain fl i' s' d' where
    c: "check_ifdefs u (inside_ifdef st) (ifdef_stack st) (verilog_define_variables gl)
          = Inr (fl, i', s', d')"
    by (auto simp: parse_line_def split: sum.splits)
  define st1 where "st1 = st\<lparr>line_number := line_number st + 1, block_comment := bc,
              inside_ifdef := i', ifdef_stack := s'\<rparr>"
  from r u c have
    t: "track_line re f (gl\<lparr>verilog_define_variables := d'\<rparr>) st1 fl = Some (Inr (gl', st'))"
    by (simp add: parse_line_def st1_def)
  from track_line_mono [OF t] d have dd: "d' = verilog_define_variables gl" by simp
  then have g2: "g2\<lparr>verilog_define_variables := d'\<rparr> = g2" using d2 by simp
  have m1: "multi_defined_list gl' = multi_defined_list (gl\<lparr>verilog_define_variables := d'\<rparr>)"
    using m by simp
  from track_line_sim [OF t m1 s]
  have "track_line re f g2 st1 fl =
           Some (Inr (g2\<lparr>multi_defined_list := multi_defined_list g2 @
                           map conflict_of
                             (drop (length (verilog_modules gl)) (verilog_modules gl'))\<rparr>,
                      st'))"
    by simp
  with u c d2 g2 show ?thesis by (simp add: parse_line_def st1_def)
qed

lemma parse_lines_sim:
  "parse_lines re f ls (gl, st) = Some (Inr (gl', st')) \<Longrightarrow>
   verilog_define_variables gl' = verilog_define_variables gl \<Longrightarrow>
   multi_defined_list gl' = multi_defined_list gl \<Longrightarrow>
   verilog_define_variables g2 = verilog_define_variables gl \<Longrightarrow>
   set (module_list gl') \<subseteq> set (module_list g2) \<Longrightarrow>
   parse_lines re f ls (g2, st) =
     Some (Inr (g2\<lparr>multi_defined_list := multi_defined_list g2 @
                     map conflict_of
                       (drop (length (verilog_modules gl)) (verilog_modules gl'))\<rparr>,
                st'))"
proof (induction ls arbitrary: gl st g2)
  case Nil
  then show ?case by simp
next
  case (Cons l ls)
  from Cons.prems(1) obtain gla sta where
    a: "parse_line re f (gl, st) l = Some (Inr (gla, sta))"
    and b: "parse_lines re f ls (gla, sta) = Some (Inr (gl', st'))"
    by (auto split: option.splits sum.splits)
  note ma = parse_line_mono [OF a] and mb = parse_lines_mono [OF b]
  have da: "verilog_define_variables gla = verilog_define_variables gl"
    using ma mb Cons.prems(2) by (metis prefix_order.antisym)
  have mu: "multi_defined_list gla = multi_defined_list gl"
    using ma mb Cons.prems(3) by (metis prefix_order.antisym)
  have sa: "set (module_list gla) \<subseteq> set (module_list g2)"
    using mb Cons.prems(5) by blast
  define g2a where "g2a = g2\<lparr>multi_defined_list := multi_defined_list g2 @
                     map conflict_of
                       (drop (length (verilog_modules gl)) (verilog_modules gla))\<rparr>"
  from parse_line_sim [OF a da mu Cons.prems(4) sa]
  have a2: "parse_line re f (g2, st) l = Some (Inr (g2a, sta))" by (simp add: g2a_def)
  have "parse_lines re f ls (g2a, sta) =
     Some (Inr (g2a\<lparr>multi_defined_list := multi_defined_list g2a @
                     map conflict_of
                       (drop (length (verilog_modules gla)) (verilog_modules gl'))\<rparr>,
                st'))"
  proof (rule Cons.IH [OF b])
    show "verilog_define_variables gl' = verilog_define_variables gla"
      using Cons.prems(2) da by simp
    show "multi_defined_list gl' = multi_defined_list gla" using Cons.prems(3) mu by simp
    show "verilog_define_variables g2a = verilog_define_variables gla"
      using Cons.prems(4) da by (simp add: g2a_def)
    show "set (module_list gl') \<subseteq> set (module_list g2a)"
      using Cons.prems(5) by (simp add: g2a_def)
  qed
  moreover
  from ma obtain xs where xs: "verilog_modules gla = verilog_modules gl @ xs"
    by (auto simp: prefix_def)
  from mb obtain ys where ys: "verilog_modules gl' = verilog_modules gla @ ys"
    by (auto simp: prefix_def)
  have "drop (length (verilog_modules gl)) (verilog_modules gl')
          = drop (length (verilog_modules gl)) (verilog_modules gla)
            @ drop (length (verilog_modules gla)) (verilog_modules gl')"
    using xs ys by simp
  ultimately show ?case using a2 by (simp add: g2a_def)
qed

lemma parse_verilog_again:
  assumes r: "parse_verilog re f (Some ls) gl = Some (Inr gl1)"
    and d: "verilog_define_variables gl1 = verilog_define_variables gl"
    and m: "multi_defined_list gl1 = multi_defined_list gl"
  shows "parse_verilog re f (Some ls) gl1 =
           Some (Inr (gl1\<lparr>multi_defined_list := multi_defined_list gl1 @
                            map conflict_of
                              (drop (length (verilog_modules gl)) (verilog_modules gl1))\<rparr>))"
proof -
  from r obtain st1 where
    p: "parse_lines re f ls (gl, initial_locals) = Some (Inr (gl1, st1))"
    and a: "\<not> active_module st1"
    by (auto simp: parse_verilog_def split: option.splits sum.splits if_splits)
  from parse_lines_sim [OF p d m d subset_refl] a show ?thesis
    by (simp add: parse_verilog_def)
qed

lemma track_line_endmodule_idle:
  "py_find l ''endmodule'' \<noteq> - 1 \<Longrightarrow> \<not> active_module st \<Longrightarrow>
     track_line re f gl st l = Some (Inl SystemExit)"
  by (auto simp: track_line_def)

lemma track_line_no_endmodule:
  "py_find l ''endmodule'' = - 1 \<Longrightarrow> track_line re f gl st l = Some (Inr (gl', st')) \<Longrightarrow>
     gl' = gl"
  by (auto simp: track_line_def split: if_splits option.splits)

lemma parse_verilog_unterminated:
  "parse_lines re f ls (gl, initial_locals) = Some (Inr (gl', st')) \<Longrightarrow> active_module st' \<Longrightarrow>
     parse_verilog re f (Some ls) gl = Some (Inl SystemExit)"
  by (simp add: parse_verilog_def)

section \<open>Reverse path finder\<close>

text \<open>
  A \<open>for\<close> loop whose body may call a function that does not return: the body maps the
  state before one element to the state after it, or to \<open>None\<close>.
\<close>

fun for_each :: "('a \<Rightarrow> 's \<Rightarrow> 's option) \<Rightarrow> 'a list \<Rightarrow> 's \<Rightarrow> 's option" where
  "for_each body [] s = Some s"
| "for_each body (x # xs) s = Option.bind (body x s) (for_each body xs)"

lemma for_each_mono [partial_function_mono]:
  assumes "\<And>x s. mono_option (\<lambda>f. body f x s)"
  shows "mono_option (\<lambda>f. for_each (body f) xs s)"
proof (induction xs arbitrary: s)
  case Nil
  show ?case by (simp add: option.const_mono)
next
  case (Cons x xs)
  show ?case
    unfolding for_each.simps
    by (rule bind_mono) (rule assms, rule Cons.IH)
qed

lemma for_each_append:
  "for_each body (xs @ ys) s = Option.bind (for_each body xs s) (for_each body ys)"
  by (induction xs arbitrary: s) (auto split: Option.bind_splits)

lemma for_each_prefix:
  "for_each body xs s = Some s' \<Longrightarrow>
   (\<And>x t t'. x \<in> set xs \<Longrightarrow> body x t = Some t' \<Longrightarrow> prefix t t') \<Longrightarrow>
   prefix s s'"
proof (induction xs arbitrary: s)
  case Nil
  then show ?case by simp
next
  case (Cons x xs)
  from Cons.prems(1) obtain s1 where
    a: "body x s = Some s1" and b: "for_each body xs s1 = Some s'"
    by (auto split: Option.bind_splits)
  have "prefix s s1" by (rule Cons.prems(2) [OF _ a]) simp
  moreover have "prefix s1 s'"
  proof (rule Cons.IH [OF b])
    fix y t t'
    assume "y \<in> set xs" "body y t = Some t'"
    then show "prefix t t'" using Cons.prems(2) [of y t t'] by simp
  qed
  ultimately show ?case by (rule prefix_order.trans)
qed

lemma for_each_returns:
  assumes "\<And>x s. x \<in> set xs \<Longrightarrow> \<exists>s'. body x s = Some s'"
  shows "\<exists>s'. for_each body xs s = Some s'"
  using assms
proof (induction xs arbitrary: s)
  case Nil
  show ?case by simp
next
  case (Cons x xs)
  from Cons.prems [of x s] obtain s1 where a: "body x s = Some s1" by auto
  from Cons.IH [of s1] Cons.prems obtain s2 where "for_each body xs s1 = Some s2" by auto
  with a show ?case by simp
qed

definition seperating_char :: string where
  "seperating_char = ''.''"

text \<open>
  \<open>find_all_instances(module_type, search_module, outfile, current_path)\<close> over the
  global \<open>verilog_modules\<close>; \<open>outfile\<close> is the list of the strings written to the file
  so far. The recursion has no guard against a module that is instantiated, directly or
  not, inside itself: \<open>None\<close> is the call that does not return.
\<close>

partial_function (option) find_all_instances ::
  "VerilogModule list \<Rightarrow> string \<Rightarrow> string \<Rightarrow> string list \<Rightarrow> string \<Rightarrow> string list option" where
  "find_all_instances vms module_type search_module outfile current_path =
     for_each
       (\<lambda>m out.
          for_each
            (\<lambda>inst out'.
               if fst inst = module_type then
                 (let append_path =
                        (if current_path = '''' then snd inst
                         else snd inst @ seperating_char @ current_path);
                      out'' =
                        (if name m = search_module
                         then out' @ [name m @ seperating_char @ append_path @ [CHR 0x0A]]
                         else out')
                  in find_all_instances vms (name m) search_module out'' append_path)
               else Some out')
            (submodules m) out)
       vms outfile"

declare find_all_instances.simps [code]

section \<open>Facts about the reverse path finder\<close>

text \<open>
  A registry with a module that instantiates itself, listed before \<open>top\<close>, and a rank
  function as the witness that a registry has no such cycle: every module ranks below
  the types that it instantiates.
\<close>

definition loop_mod :: VerilogModule where
  "loop_mod = \<lparr>name = ''loop'', inputs = [], outputs = [],
                   submodules = [(''leaf'', ''x''), (''loop'', ''y'')],
                   filepath = ''loop.v'', linenum = 1, startcol = 12\<rparr>"

definition cyclic_registry :: "VerilogModule list" where
  "cyclic_registry = [loop_mod, top_mod]"

definition ranked :: "(string \<Rightarrow> nat) \<Rightarrow> VerilogModule list \<Rightarrow> bool" where
  "ranked r vms = (\<forall>m \<in> set vms. \<forall>inst \<in> set (submodules m). r (name m) < r (fst inst))"

definition scenario_rank :: "string \<Rightarrow> nat" where
  "scenario_rank s = (if s = ''top'' then 0 else 1)"

lemma for_each_hit:
  assumes r: "for_each body xs s = Some s'"
    and x: "x \<in> set xs"
    and p: "\<And>y t t'. body y t = Some t' \<Longrightarrow> prefix t t'"
    and h: "\<And>t t'. body x t = Some t' \<Longrightarrow> l \<in> set t'"
  shows "l \<in> set s'"
proof -
  from x obtain pre post where xs: "xs = pre @ x # post" by (auto dest: split_list)
  from r xs obtain s1 s2 where
    a: "for_each body pre s = Some s1" and b: "body x s1 = Some s2"
    and c: "for_each body post s2 = Some s'"
    by (auto simp: for_each_append split: Option.bind_splits)
  from h [OF b] have "l \<in> set s2" .
  moreover have "prefix s2 s'" by (rule for_each_prefix [OF c]) (rule p)
  ultimately show ?thesis by (auto simp: prefix_def)
qed

text \<open>The body of the inner loop, with the recursive call as the argument \<open>f\<close>.\<close>

definition visit_instance ::
  "(string \<Rightarrow> string list \<Rightarrow> string \<Rightarrow> string list option)
     \<Rightarrow> string \<Rightarrow> string \<Rightarrow> string \<Rightarrow> VerilogModule \<Rightarrow> string \<times> string \<Rightarrow> string list
     \<Rightarrow> string list option" where
  "visit_instance f module_type search_module current_path m inst out =
     (if fst inst = module_type then
        (let append_path =
               (if current_path = '''' then snd inst
                else snd inst @ seperating_char @ current_path);
             out' =
               (if name m = search_module
                then out @ [name m @ seperating_char @ append_path @ [CHR 0x0A]]
                else out)
         in f (name m) out' append_path)
      else Some out)"

lemma find_all_instances_unfold:
  "find_all_instances vms t s out path =
     for_each
       (\<lambda>m. for_each
               (visit_instance (\<lambda>n u p. find_all_instances vms n s u p) t s path m)
               (submodules m))
       vms out"
  by (subst find_all_instances.simps) (simp add: visit_instance_def [abs_def])

lemma visit_instance_prefix:
  assumes "visit_instance f t s path m inst u = Some u'"
    and "\<And>n v p v'. f n v p = Some v' \<Longrightarrow> prefix v v'"
  shows "prefix u u'"
proof (cases "fst inst = t")
  case False
  with assms(1) show ?thesis by (simp add: visit_instance_def)
next
  case True
  with assms(1) obtain u1 ap where "f (name m) u1 ap = Some u'" and "prefix u u1"
    by (auto simp: visit_instance_def Let_def split: if_splits)
  with assms(2) show ?thesis using prefix_order.trans by blast
qed

lemma find_all_instances_extends:
  assumes "find_all_instances vms t s out path = Some out'"
  shows "prefix out out'"
proof (rule find_all_instances.raw_induct
    [where P = "\<lambda>(a :: VerilogModule list) (b :: string) (c :: string)
                  (u :: string list) (e :: string) (y :: string list). prefix u y",
     rotated 1, OF assms], goal_cases)
  case (1 f a b c u e y)
  have body: "for_each
                (\<lambda>m. for_each (visit_instance (\<lambda>n v p. f a n c v p) b c e m) (submodules m))
                a u = Some y"
    using 1(2) by (simp add: visit_instance_def [abs_def])
  show ?case
  proof (rule for_each_prefix [OF body])
    fix m :: VerilogModule and v v' :: "string list"
    assume "for_each (visit_instance (\<lambda>n v p. f a n c v p) b c e m) (submodules m) v = Some v'"
    then show "prefix v v'"
    proof (rule for_each_prefix)
      fix inst :: "string \<times> string" and w w' :: "string list"
      assume "visit_instance (\<lambda>n v p. f a n c v p) b c e m inst w = Some w'"
      then show "prefix w w'"
        by (rule visit_instance_prefix) (rule 1(1))
    qed
  qed
qed

lemma find_all_instances_hit:
  assumes r: "find_all_instances vms t s out path = Some out'"
    and m: "m \<in> set vms" and i: "inst \<in> set (submodules m)"
    and n: "name m = s" and ty: "fst inst = t"
  shows "(s @ seperating_char
            @ (if path = '''' then snd inst else snd inst @ seperating_char @ path)
            @ [CHR 0x0A]) \<in> set out'"
proof -
  define line where "line = s @ seperating_char
            @ (if path = '''' then snd inst else snd inst @ seperating_char @ path)
            @ [CHR 0x0A]"
  define inner where
    "inner = visit_instance (\<lambda>n u p. find_all_instances vms n s u p) t s path"
  have ip: "prefix u u'" if "inner k j u = Some u'" for k j u u'
    using that unfolding inner_def
    by (rule visit_instance_prefix) (rule find_all_instances_extends)
  have r': "for_each (\<lambda>m. for_each (inner m) (submodules m)) vms out = Some out'"
    using r by (subst (asm) find_all_instances_unfold) (simp add: inner_def)
  have "line \<in> set out'"
  proof (rule for_each_hit [OF r' m])
    fix k :: VerilogModule and u u' :: "string list"
    assume "for_each (inner k) (submodules k) u = Some u'"
    then show "prefix u u'" by (rule for_each_prefix) (rule ip)
  next
    fix u u' :: "string list"
    assume a: "for_each (inner m) (submodules m) u = Some u'"
    show "line \<in> set u'"
    proof (rule for_each_hit [OF a i])
      fix j :: "string \<times> string" and v v' :: "string list"
      assume "inner m j v = Some v'"
      then show "prefix v v'" by (rule ip)
    next
      fix v v' :: "string list"
      assume "inner m inst v = Some v'"
      then have "find_all_instances vms s s (v @ [line])
                   (if path = '''' then snd inst else snd inst @ seperating_char @ path)
                 = Some v'"
        using n ty by (simp add: inner_def visit_instance_def line_def Let_def)
      from find_all_instances_extends [OF this] show "line \<in> set v'"
        by (auto simp: prefix_def)
    qed
  qed
  then show ?thesis by (simp add: line_def)
qed

lemma find_all_instances_returns:
  assumes "ranked r vms"
  shows "\<exists>out'. find_all_instances vms t s out path = Some out'"
proof (induction "r t" arbitrary: t out path rule: less_induct)
  case less
  show ?case
  proof (subst find_all_instances_unfold, rule for_each_returns, rule for_each_returns)
    fix m :: VerilogModule and v0 :: "string list" and inst :: "string \<times> string"
      and v :: "string list"
    assume m: "m \<in> set vms" and i: "inst \<in> set (submodules m)"
    show "\<exists>u. visit_instance (\<lambda>n u p. find_all_instances vms n s u p) t s path m inst v
                = Some u"
    proof (cases "fst inst = t")
      case False
      then show ?thesis by (simp add: visit_instance_def)
    next
      case True
      with assms m i have "r (name m) < r t" by (auto simp: ranked_def)
      from less [OF this] True show ?thesis by (simp add: visit_instance_def Let_def)
    qed
  qed
qed

lemma find_all_instances_loop_never_returns:
  assumes "find_all_instances vms t s out path = Some y"
  shows "\<not> (vms = cyclic_registry \<and> t = ''loop'')"
proof (rule find_all_instances.raw_induct
    [where P = "\<lambda>(a :: VerilogModule list) (b :: string) (c :: string)
                  (u :: string list) (e :: string) (y :: string list).
                  \<not> (a = cyclic_registry \<and> b = ''loop'')",
     rotated 1, OF assms], goal_cases)
  case (1 f a b c u e y)
  show ?case
  proof
    assume h: "a = cyclic_registry \<and> b = ''loop''"
    with 1(2) obtain u1 p1 z where "f cyclic_registry ''loop'' c u1 p1 = Some z"
      by (auto simp: cyclic_registry_def loop_mod_def top_mod_def Let_def
          split: Option.bind_splits if_splits)
    with 1(1) show False by blast
  qed
qed

lemma find_all_instances_cyclic:
  "find_all_instances cyclic_registry ''leaf'' ''top'' [] '''' = None"
proof (cases "find_all_instances cyclic_registry ''leaf'' ''top'' [] ''''")
  case None
  then show ?thesis .
next
  case (Some y)
  then obtain u1 p1 z where
    "find_all_instances cyclic_registry ''loop'' ''top'' u1 p1 = Some z"
    by (subst (asm) find_all_instances.simps)
      (auto simp: cyclic_registry_def loop_mod_def top_mod_def Let_def
        split: Option.bind_splits if_splits)
  with find_all_instances_loop_never_returns show ?thesis by blast
qed

lemma find_all_instances_scenario:
  "find_all_instances [top_mod, leaf_mod] ''leaf'' ''top'' [] ''''
     = Some [''top.u0'' @ [CHR 0x0A]]"
  by code_simp

section \<open>Hierarchy reporter\<close>

text \<open>
  \<open>read_module_info(module_name)\<close> returns the attributes of the first Module with that
  name, or nothing: \<open>None\<close> here is the \<open>None\<close> that the Python function returns by
  falling off its end.
\<close>

definition read_module_info :: "VerilogModule list \<Rightarrow> string \<Rightarrow> VerilogModule option" where
  "read_module_info vms module_name = List.find (\<lambda>m. name m = module_name) vms"

text \<open>\<open>str(n)\<close> for an integer, as the f-strings of the report format it.\<close>

function str_nat :: "nat \<Rightarrow> string" where
  "str_nat n =
     (if n < 10 then [char_of (48 + n)]
      else str_nat (n div 10) @ [char_of (48 + n mod 10)])"
  by pat_completeness auto
termination
  by (relation "measure id") auto

definition py_str :: "int \<Rightarrow> string" where
  "py_str i = (if i < 0 then ''-'' @ str_nat (nat (- i)) else str_nat (nat i))"

text \<open>
  What \<open>report_hierarchy\<close> reads and writes besides the registry: the report file
  (the strings written to it), the console (the strings printed), the three module-level
  lists, and the file of the unused-files report.
\<close>

record report_state =
  out_file :: "string list"
  printed :: "string list"
  used_module_list :: "string list"
  used_file_list :: "string list"
  unused_file_list :: "string list"
  unused_log_file :: "string list"

text \<open>The first block under \<open>if hier_num == 0\<close>: the report file is opened anew.\<close>

definition report_header :: "string \<Rightarrow> bool \<Rightarrow> int \<Rightarrow> report_state \<Rightarrow> report_state" where
  "report_header top_module report_unused max_depth rs =
     (let rs1 = rs\<lparr>out_file := []\<rparr>;
          rs2 = (if report_unused then rs1\<lparr>used_module_list := [top_module]\<rparr> else rs1);
          rs3 = (if max_depth \<noteq> 0
                 then rs2\<lparr>out_file := out_file rs2 @
                        [''INFO : max_depth set to '' @ py_str max_depth
                           @ [CHR 0x0A, CHR 0x0A]]\<rparr>
                 else rs2);
          rs4 = rs3\<lparr>printed := printed rs3 @
                  [[CHR 0x0A] @ ''INFO : reporting hierarchy below module '' @ top_module
                     @ ''...'' @ [CHR 0x0A],
                   top_module]\<rparr>
      in rs4\<lparr>out_file := out_file rs4 @ [top_module @ [CHR 0x0A]]\<rparr>)"

text \<open>The last block under \<open>if hier_num == 0\<close>: the unused modules and files.\<close>

definition report_footer ::
  "VerilogModule list \<Rightarrow> string \<Rightarrow> bool \<Rightarrow> report_state \<Rightarrow> report_state" where
  "report_footer vms top_module report_unused rs =
     (let rs3 =
        (if report_unused then
           (let unique_unused_module_list =
                  filter (\<lambda>m. name m \<notin> set (used_module_list rs)) vms;
                rs1 = rs\<lparr>printed := printed rs @
                        [[CHR 0x0A] @ ''INFO : generating report of unused modules under ''
                           @ top_module @ ''...'']
                        @ map (\<lambda>m. [CHR 0x09] @ ''module type '' @ name m @ '' was unused (''
                                      @ filepath m @ '':'' @ py_str (int (linenum m)) @ '':''
                                      @ py_str (startcol m) @ '')'')
                              unique_unused_module_list\<rparr>
            in foldl
                 (\<lambda>rs2 m.
                    if filepath m \<notin> set (unused_file_list rs2)
                       \<and> filepath m \<notin> set (used_file_list rs2)
                    then rs2\<lparr>unused_file_list := unused_file_list rs2 @ [filepath m],
                             unused_log_file := unused_log_file rs2 @
                               [''No modules from this file were used : '' @ filepath m
                                  @ [CHR 0x0A]]\<rparr>
                    else rs2)
                 (rs1\<lparr>unused_log_file := []\<rparr>)
                 unique_unused_module_list)
         else rs)
      in rs3\<lparr>printed := printed rs3 @ [[CHR 0x0A] @ ''INFO : end of hierarchy report'']\<rparr>)"

text \<open>
  The body of the loop over the submodules of a registered module: the line of the
  instance on the console and in the file, its type in \<open>used_module_list\<close>, then the
  recursive call \<open>f\<close> on the type unless the depth limit is reached.
\<close>

definition report_instance ::
  "(string \<Rightarrow> report_state \<Rightarrow> report_state option) \<Rightarrow> nat \<Rightarrow> int \<Rightarrow> string \<times> string
     \<Rightarrow> report_state \<Rightarrow> report_state option" where
  "report_instance f hier_num max_depth inst rs =
     (let indent = concat (replicate (hier_num + 1) ''| '');
          file_indent = replicate (hier_num + 1) (CHR 0x09);
          rs1 = rs\<lparr>printed := printed rs @
                  [indent @ snd inst @ '' ('' @ fst inst @ '')''],
                 out_file := out_file rs @
                  [file_indent @ snd inst @ '' ('' @ fst inst @ '')'' @ [CHR 0x0A]],
                 used_module_list := used_module_list rs @ [fst inst]\<rparr>
      in if max_depth = 0 \<or> int hier_num < max_depth - 1 then f (fst inst) rs1
         else Some rs1)"

lemma report_instance_mono [partial_function_mono]:
  assumes "\<And>t r. mono_option (\<lambda>f. F f t r)"
  shows "mono_option (\<lambda>f. report_instance (F f) hier_num max_depth inst rs)"
proof (cases "max_depth = 0 \<or> int hier_num < max_depth - 1")
  case True
  then show ?thesis by (simp add: report_instance_def Let_def assms)
next
  case False
  then show ?thesis by (simp add: report_instance_def Let_def option.const_mono)
qed

text \<open>
  \<open>report_hierarchy(top_module, hier_num, report_unused, max_depth)\<close>. The recursion
  has no guard against cycles: \<open>None\<close> is the call that does not return.
\<close>

partial_function (option) report_hierarchy ::
  "VerilogModule list \<Rightarrow> string \<Rightarrow> nat \<Rightarrow> bool \<Rightarrow> int \<Rightarrow> report_state
     \<Rightarrow> report_state option" where
  "report_hierarchy vms top_module hier_num report_unused max_depth rs =
     (let rs1 = (if hier_num = 0
                 then report_header top_module report_unused max_depth rs
                 else rs)
      in Option.bind
           (case read_module_info vms top_module of
              None \<Rightarrow> Some rs1
            | Some top_module_info \<Rightarrow>
                for_each
                  (report_instance
                     (\<lambda>i_type r. report_hierarchy vms i_type (hier_num + 1) False max_depth r)
                     hier_num max_depth)
                  (submodules top_module_info)
                  (if filepath top_module_info \<notin> set (used_file_list rs1)
                   then rs1\<lparr>used_file_list :=
                              used_file_list rs1 @ [filepath top_module_info]\<rparr>
                   else rs1))
           (\<lambda>rs2. Some (if hier_num = 0
                        then report_footer vms top_module report_unused rs2
                        else rs2)))"

declare report_hierarchy.simps [code]

definition empty_report :: report_state where
  "empty_report = \<lparr>out_file = [], printed = [], used_module_list = [], used_file_list = [],
                    unused_file_list = [], unused_log_file = []\<rparr>"

section \<open>Properties of the conditional-compilation filter\<close>

lemmas filter_eval_defs =
  check_ifdefs_def temp_line_of_def strip_def py_isspace_def py_whitespace_def
  startswith_def py_pop_def





text \<open>
  C2. The claim: a line whose trimmed text starts with \<open>`ifndef NAME\<close> pushes the token
  and makes the scope active exactly when the stack was empty at push time and the name
  is not defined. The source tests \<open>len(ifdef_stack) == 0\<close> after the \<open>append\<close>, so the
  test never holds: on an empty stack and with nothing defined, \<open>`ifndef FOO\<close> pushes
  \<open>FOO\<close> and leaves the scope inactive.
\<close>

theorem check_ifdefs_ifndef_empty_stack_inactive:
  "check_ifdefs ''`ifndef FOO'' False [] [] = Inr ('''', False, [''FOO''], [])"
  by (simp add: filter_eval_defs)

text \<open>
  C3. The claim: for a line with a line-comment marker, in any starting comment state, the
  output has nothing from the first unconsumed \<open>//\<close> to the end of the line and has all
  the kept text before that marker. On \<open>a /* b */ c // d\<close> the scan resumes at index 9
  after the block comment, finds the marker at offset 3 of the rest, and keeps
  \<open>line[9:3]\<close>, which is empty: the text \<open> c \<close> before the marker is lost (the slice end
  lacks the \<open>i +\<close> that the block-comment branch has). On \<open>x // y /* z\<close> the block
  opener is looked for first, so the marker and the text after it are kept.
\<close>

theorem get_uncommented_drops_text_before_marker:
  "get_uncommented ''a /* b */ c // d'' False = (''a '', False)
   \<and> get_uncommented ''x // y /* z'' False = (''x // y '', True)"
  by (simp add: get_uncommented_def py_slice_def py_slice_from_def)

text \<open>
  C4. The claim: \<open>`endif\<close> and \<open>`endprotected\<close> pop the stack and make the scope active
  exactly when the stack is still non-empty and its new top is defined, by the same rule.
  With the stack \<open>[FOO, protected]\<close> and \<open>FOO\<close> defined, \<open>`endif\<close> pops and activates,
  while \<open>`endprotected\<close> pops and does not: the source tests the whole stack, not its
  last element, for membership in the list of defined names.
\<close>

theorem check_ifdefs_endprotected_differs_from_endif:
  "check_ifdefs ''`endprotected'' False [''FOO'', ''protected''] [''FOO'']
     = Inr ('''', False, [''FOO''], [''FOO''])
   \<and> check_ifdefs ''`endif'' False [''FOO'', ''protected''] [''FOO'']
     = Inr ('''', True, [''FOO''], [''FOO''])"
  by (simp add: filter_eval_defs)

text \<open>
  C5. One pass of the parameter loop: when the first \<open>#(\<close> is at index \<open>p\<close> and the text
  after it is a balanced text \<open>mid\<close> followed by its closer, the pass deletes the whole span
  \<open>#(mid)\<close>, opener and matching closer included, keeps the text before it, and goes
  on with the rest (where \<open>str.replace\<close> has deleted every further copy of the same
  span). The loop ends only when no \<open>#(\<close> is left. On \<open>foo #(WIDTH(8)) bar(...);\<close>
  normalization gives \<open>foo bar(...);\<close>.
\<close>

theorem skip_blocks_deletes_balanced_span:
  "(py_find code ''#('' = int p \<and> drop (p + 2) code = mid @ '')'' @ rest \<and> balanced mid
      \<longrightarrow> skip_blocks ''#('' code
            = skip_blocks ''#('' (take p code @ py_replace rest (''#('' @ mid @ '')'') ''''))
   \<and> (skip_blocks ''#('' code = Inr r \<longrightarrow> py_find r ''#('' = - 1)
   \<and> get_one_line_code [''foo #(WIDTH(8)) bar(...);''] = Inr ''foo bar(...);''"
proof (intro conjI impI)
  assume "py_find code ''#('' = int p \<and> drop (p + 2) code = mid @ '')'' @ rest \<and> balanced mid"
  then show "skip_blocks ''#('' code
            = skip_blocks ''#('' (take p code @ py_replace rest (''#('' @ mid @ '')'') '''')"
    using skip_blocks_iteration by blast
next
  assume "skip_blocks ''#('' code = Inr r"
  then show "py_find r ''#('' = - 1" by (rule skip_blocks_result_has_no_opener)
next
  show "get_one_line_code [''foo #(WIDTH(8)) bar(...);''] = Inr ''foo bar(...);''"
    by (simp add: get_one_line_code_def skip_blocks.simps scan_parens.simps py_slice_def)
qed

theorem skip_blocks_deletes_balanced_span_witness:
  "py_find ''foo #(WIDTH(8)) bar(...);'' ''#('' = int 4
   \<and> drop (4 + 2) ''foo #(WIDTH(8)) bar(...);'' = ''WIDTH(8)'' @ '')'' @ '' bar(...);''
   \<and> balanced ''WIDTH(8)''
   \<and> skip_blocks ''#('' ''foo #(WIDTH(8)) bar(...);'' = Inr ''foo  bar(...);''
   \<and> py_find ''foo  bar(...);'' ''#('' = - 1"
proof -
  have h1: "py_find ''foo #(WIDTH(8)) bar(...);'' ''#('' = int 4" by simp
  have h2: "drop (4 + 2) ''foo #(WIDTH(8)) bar(...);'' = ''WIDTH(8)'' @ '')'' @ '' bar(...);''"
    by simp
  have h3: "balanced ''WIDTH(8)''"
    by (simp add: balanced_def paren_depth_def paren_delta_def upt_rec)
  have e: "take 4 ''foo #(WIDTH(8)) bar(...);''
             @ py_replace '' bar(...);'' (''#('' @ ''WIDTH(8)'' @ '')'') ''''
           = ''foo  bar(...);''"
    by simp
  have base: "skip_blocks ''#('' ''foo  bar(...);'' = Inr ''foo  bar(...);''"
    by (subst skip_blocks.simps) simp
  note t = skip_blocks_deletes_balanced_span
    [of "''foo #(WIDTH(8)) bar(...);''" 4 "''WIDTH(8)''" "'' bar(...);''" "''foo  bar(...);''"]
  from t h1 h2 h3
  have "skip_blocks ''#('' ''foo #(WIDTH(8)) bar(...);''
          = skip_blocks ''#('' (take 4 ''foo #(WIDTH(8)) bar(...);''
             @ py_replace '' bar(...);'' (''#('' @ ''WIDTH(8)'' @ '')'') '''')"
    by blast
  then have s: "skip_blocks ''#('' ''foo #(WIDTH(8)) bar(...);'' = Inr ''foo  bar(...);''"
    by (simp only: e base)
  from t s have "py_find ''foo  bar(...);'' ''#('' = - 1" by blast
  with h1 h2 h3 s show ?thesis by blast
qed







text \<open>
  C7. The claim: in every registry in which the scope module has an Instance of the
  searched type, the finder emits scope + separator + path. In \<open>cyclic_registry\<close> the
  module \<open>top\<close> has the Instance \<open>u0\<close> of type \<open>leaf\<close>, but \<open>loop\<close>, which also
  instantiates \<open>leaf\<close> and itself, comes first: the search for \<open>leaf\<close> under \<open>top\<close>
  descends into \<open>loop\<close> and does not return (in CPython the recursion ends in a
  \<open>RecursionError\<close>), and \<open>top.u0\<close> is never written.
\<close>

theorem find_all_instances_cyclic_counterexample:
  "top_mod \<in> set cyclic_registry \<and> name top_mod = ''top''
   \<and> (''leaf'', ''u0'') \<in> set (submodules top_mod)
   \<and> find_all_instances cyclic_registry ''leaf'' ''top'' [] '''' = None"
  by (simp add: find_all_instances_cyclic) (simp add: cyclic_registry_def top_mod_def)

text \<open>
  C7, amended. In every registry without instantiation cycles (every module ranks below
  the types it instantiates) the search returns, and for every Module whose name is the
  scope and every Instance in it of the searched type the output has the line
  scope + separator + path, where path is the instance name, followed by the separator
  and the current path when one was accumulated. In the two-module scenario the search
  for \<open>leaf\<close> under \<open>top\<close> writes exactly \<open>top.u0\<close>.
\<close>

theorem find_all_instances_emits_scope_paths:
  "(ranked r vms \<longrightarrow>
      (\<exists>out'. find_all_instances vms t s out path = Some out'
         \<and> (\<forall>m \<in> set vms. \<forall>inst \<in> set (submodules m).
               name m = s \<and> fst inst = t \<longrightarrow>
                 (s @ seperating_char
                    @ (if path = '''' then snd inst else snd inst @ seperating_char @ path)
                    @ [CHR 0x0A]) \<in> set out')))
   \<and> find_all_instances [top_mod, leaf_mod] ''leaf'' ''top'' [] ''''
       = Some [''top.u0'' @ [CHR 0x0A]]"
proof (intro conjI impI)
  assume rk: "ranked r vms"
  from find_all_instances_returns [OF rk] obtain out' where
    r: "find_all_instances vms t s out path = Some out'" by blast
  have "\<forall>m \<in> set vms. \<forall>inst \<in> set (submodules m).
               name m = s \<and> fst inst = t \<longrightarrow>
                 (s @ seperating_char
                    @ (if path = '''' then snd inst else snd inst @ seperating_char @ path)
                    @ [CHR 0x0A]) \<in> set out'"
    using find_all_instances_hit [OF r] by blast
  with r show "\<exists>out'. find_all_instances vms t s out path = Some out'
         \<and> (\<forall>m \<in> set vms. \<forall>inst \<in> set (submodules m).
               name m = s \<and> fst inst = t \<longrightarrow>
                 (s @ seperating_char
                    @ (if path = '''' then snd inst else snd inst @ seperating_char @ path)
                    @ [CHR 0x0A]) \<in> set out')"
    by blast
next
  show "find_all_instances [top_mod, leaf_mod] ''leaf'' ''top'' [] ''''
       = Some [''top.u0'' @ [CHR 0x0A]]"
    by (rule find_all_instances_scenario)
qed

theorem find_all_instances_emits_scope_paths_witness:
  "ranked scenario_rank [top_mod, leaf_mod]
   \<and> (\<exists>out'. find_all_instances [top_mod, leaf_mod] ''leaf'' ''top'' [] '''' = Some out'
         \<and> (''top.u0'' @ [CHR 0x0A]) \<in> set out')"
proof -
  have rk: "ranked scenario_rank [top_mod, leaf_mod]"
    by (simp add: ranked_def scenario_rank_def top_mod_def leaf_mod_def)
  note t = find_all_instances_emits_scope_paths
    [where r = scenario_rank and vms = "[top_mod, leaf_mod]" and t = "''leaf''"
       and s = "''top''" and out = "[]" and path = "''''", THEN conjunct1, THEN mp, OF rk]
  from t obtain out' where
    ab: "find_all_instances [top_mod, leaf_mod] ''leaf'' ''top'' [] '''' = Some out'
         \<and> (\<forall>m \<in> set [top_mod, leaf_mod]. \<forall>inst \<in> set (submodules m).
               name m = ''top'' \<and> fst inst = ''leaf'' \<longrightarrow>
                 (''top'' @ seperating_char
                    @ (if ('''' :: string) = '''' then snd inst else snd inst @ seperating_char @ '''')
                    @ [CHR 0x0A]) \<in> set out')" ..
  note b = conjunct2 [OF ab, THEN bspec, THEN bspec, THEN mp,
      of top_mod "(''leaf'', ''u0'')"]
  have "(''top'' @ seperating_char
           @ (if ('''' :: string) = '''' then snd (''leaf'', ''u0'')
              else snd (''leaf'', ''u0'') @ seperating_char @ '''')
           @ [CHR 0x0A]) \<in> set out'"
    by (rule b) (simp_all add: top_mod_def)
  then have c: "(''top.u0'' @ [CHR 0x0A]) \<in> set out'"
    by (simp add: seperating_char_def)
  from conjunct1 [OF ab] c
  have "\<exists>out'. find_all_instances [top_mod, leaf_mod] ''leaf'' ''top'' [] '''' = Some out'
         \<and> (''top.u0'' @ [CHR 0x0A]) \<in> set out'"
    by (intro exI conjI)
  with rk show ?thesis by (intro conjI)
qed

text \<open>
  C8. A filtered line containing \<open>endmodule\<close> while no module is open ends the run with
  the \<open>exit()\<close> of the source, and so does the end of the file while a module is open; an
  aborted run hands back no registry. A line without \<open>endmodule\<close> never changes the
  registry, so the lines of an unterminated region insert nothing.
\<close>

theorem unmatched_module_boundaries_abort:
  "(py_find l ''endmodule'' \<noteq> - 1 \<and> \<not> active_module st
      \<longrightarrow> track_line re f gl st l = Some (Inl SystemExit))
   \<and> (parse_lines re f ls (gl, initial_locals) = Some (Inr (gl', st')) \<and> active_module st'
      \<longrightarrow> parse_verilog re f (Some ls) gl = Some (Inl SystemExit))
   \<and> (py_find l ''endmodule'' = - 1 \<and> track_line re f gl st l = Some (Inr (gl2, st2))
      \<longrightarrow> gl2 = gl)"
  using track_line_endmodule_idle track_line_no_endmodule parse_verilog_unterminated
  by blast

theorem unmatched_module_boundaries_abort_witness:
  "py_find ''endmodule'' ''endmodule'' \<noteq> - 1 \<and> \<not> active_module initial_locals
   \<and> track_line no_ports ''x.v'' empty_globals initial_locals ''endmodule'' = Some (Inl SystemExit)
   \<and> parse_verilog no_ports ''x.v'' (Some [''module a;'']) empty_globals = Some (Inl SystemExit)"
proof -
  define st1 where "st1 = \<lparr>active_module = True, block_comment = False, inside_ifdef = False,
           ifdef_stack = [], line_number = 1, module_code = [''module a;''],
           module = ''a'', start_line = 1, start_column = 9\<rparr>"
  have a: "py_find ''endmodule'' ''endmodule'' \<noteq> - 1" by simp
  have b: "\<not> active_module initial_locals" by (simp add: initial_locals_def)
  have c: "parse_lines no_ports ''x.v'' [''module a;''] (empty_globals, initial_locals)
             = Some (Inr (empty_globals, st1))"
    unfolding st1_def by code_simp
  have d: "active_module st1" by (simp add: st1_def)
  note t = unmatched_module_boundaries_abort
    [where l = "''endmodule''" and st = initial_locals and re = no_ports and f = "''x.v''"
       and gl = empty_globals and ls = "[''module a;'']" and gl' = empty_globals
       and st' = st1]
  from t a b
  have 1: "track_line no_ports ''x.v'' empty_globals initial_locals ''endmodule''
             = Some (Inl SystemExit)"
    by blast
  from t c d
  have 2: "parse_verilog no_ports ''x.v'' (Some [''module a;'']) empty_globals
             = Some (Inl SystemExit)"
    by blast
  from a b 1 2 show ?thesis by blast
qed

lemma report_hierarchy_unregistered:
  "read_module_info vms t = None \<Longrightarrow> hier_num \<noteq> 0 \<Longrightarrow>
     report_hierarchy vms t hier_num ru md rs = Some rs"
  by (subst report_hierarchy.simps) simp

lemma report_instance_unregistered:
  assumes "read_module_info vms (fst inst) = None"
  shows "report_instance
           (\<lambda>i_type r. report_hierarchy vms i_type (hier_num + 1) False md r)
           hier_num md inst rs =
         Some (rs\<lparr>printed := printed rs @
                     [concat (replicate (hier_num + 1) ''| '') @ snd inst @ '' (''
                        @ fst inst @ '')''],
                   out_file := out_file rs @
                     [replicate (hier_num + 1) (CHR 0x09) @ snd inst @ '' (''
                        @ fst inst @ '')'' @ [CHR 0x0A]],
                   used_module_list := used_module_list rs @ [fst inst]\<rparr>)"
  using assms by (simp add: report_instance_def Let_def report_hierarchy_unregistered)

lemma report_hierarchy_scenario:
  "report_hierarchy [top_mod] ''top'' 0 False 0 empty_report =
     Some \<lparr>out_file = [''top'' @ [CHR 0x0A], [CHR 0x09] @ ''u0 (leaf)'' @ [CHR 0x0A]],
           printed = [[CHR 0x0A] @ ''INFO : reporting hierarchy below module top...''
                        @ [CHR 0x0A],
                      ''top'', ''| u0 (leaf)'',
                      [CHR 0x0A] @ ''INFO : end of hierarchy report''],
           used_module_list = [''leaf''], used_file_list = [''top.v''],
           unused_file_list = [], unused_log_file = []\<rparr>"
  by code_simp

text \<open>
  C9. A call of the reporter on a type that is not registered, below the top level,
  returns at once with the state as it was: nothing is written or printed, no error is
  reported. So for an instance of an unregistered type the loop body emits the line of
  the instance itself (on the console and in the file), records the type as used, and
  emits nothing beneath it, whatever the depth limit. With only \<open>top\<close> registered, the
  report on \<open>top\<close> is the line \<open>u0 (leaf)\<close> at indent level 1 and nothing below it.
\<close>

theorem report_hierarchy_unregistered_type_is_leaf:
  "(read_module_info vms t = None \<and> hier_num \<noteq> 0
      \<longrightarrow> report_hierarchy vms t hier_num ru md rs = Some rs)
   \<and> (read_module_info vms (fst inst) = None
      \<longrightarrow> report_instance
            (\<lambda>i_type r. report_hierarchy vms i_type (hier_num + 1) False md r)
            hier_num md inst rs =
          Some (rs\<lparr>printed := printed rs @
                      [concat (replicate (hier_num + 1) ''| '') @ snd inst @ '' (''
                         @ fst inst @ '')''],
                    out_file := out_file rs @
                      [replicate (hier_num + 1) (CHR 0x09) @ snd inst @ '' (''
                         @ fst inst @ '')'' @ [CHR 0x0A]],
                    used_module_list := used_module_list rs @ [fst inst]\<rparr>))
   \<and> report_hierarchy [top_mod] ''top'' 0 False 0 empty_report =
       Some \<lparr>out_file = [''top'' @ [CHR 0x0A], [CHR 0x09] @ ''u0 (leaf)'' @ [CHR 0x0A]],
             printed = [[CHR 0x0A] @ ''INFO : reporting hierarchy below module top...''
                          @ [CHR 0x0A],
                        ''top'', ''| u0 (leaf)'',
                        [CHR 0x0A] @ ''INFO : end of hierarchy report''],
             used_module_list = [''leaf''], used_file_list = [''top.v''],
             unused_file_list = [], unused_log_file = []\<rparr>"
proof (intro conjI impI)
  assume "read_module_info vms t = None \<and> hier_num \<noteq> 0"
  then show "report_hierarchy vms t hier_num ru md rs = Some rs"
    by (simp add: report_hierarchy_unregistered)
qed (rule report_instance_unregistered, assumption, rule report_hierarchy_scenario)

theorem report_hierarchy_unregistered_type_is_leaf_witness:
  "read_module_info [top_mod] ''leaf'' = None \<and> (1 :: nat) \<noteq> 0
   \<and> report_hierarchy [top_mod] ''leaf'' 1 False 0 empty_report = Some empty_report"
proof -
  have a: "read_module_info [top_mod] ''leaf'' = None"
    by (simp add: read_module_info_def top_mod_def)
  have b: "(1 :: nat) \<noteq> 0" by simp
  from report_hierarchy_unregistered_type_is_leaf
    [where vms = "[top_mod]" and t = "''leaf''" and hier_num = 1 and ru = False
       and md = 0 and rs = empty_report, THEN conjunct1, THEN mp, OF conjI, OF a b]
  have "report_hierarchy [top_mod] ''leaf'' 1 False 0 empty_report = Some empty_report" .
  with a b show ?thesis by (intro conjI)
qed

text \<open>
  C10. A pop directive on an empty stack makes \<open>check_ifdefs\<close> fail with the
  \<open>IndexError\<close> of \<open>list.pop\<close>, and this is the only way it fails: the call returns a
  result exactly when it is not a pop directive met with an empty stack.
\<close>

theorem check_ifdefs_pop_on_empty_stack:
  "(is_pop_directive line \<longrightarrow> check_ifdefs line ins [] defs = Inl IndexError)
   \<and> ((\<exists>r. check_ifdefs line ins st defs = Inr r)
        \<longleftrightarrow> \<not> (is_pop_directive line \<and> st = []))"
  unfolding is_pop_directive_def check_ifdefs_def startswith_def Let_def py_pop_def
  by (auto dest: prefix_same_cases)

theorem check_ifdefs_pop_on_empty_stack_witness:
  "is_pop_directive ''`endif'' \<and> check_ifdefs ''`endif'' True [] [''FOO''] = Inl IndexError"
proof -
  have h: "is_pop_directive ''`endif''"
    by (simp add: is_pop_directive_def temp_line_of_def strip_def py_isspace_def
        py_whitespace_def startswith_def)
  from check_ifdefs_pop_on_empty_stack [of "''`endif''" True "[''FOO'']" "[]"] h
  show ?thesis by blast
qed

end
